theory Spec2Isabelle
  imports Main "HOL-Library.Word"
begin

unbundle bit_operations_syntax

section \<open>Memory management utilities: the block pool\<close>

text \<open>
  A shallow embedding of \<^verbatim>\<open>src/c/memory_utils.c\<close>. The file-level variable
  \<^verbatim>\<open>g_memory_pool\<close> becomes a record that every operation takes and returns.
  \<^verbatim>\<open>size_t\<close> is a 64-bit word (an LP64 target), \<^verbatim>\<open>uint32_t\<close> a 32-bit word and
  \<^verbatim>\<open>uint8_t\<close> an 8-bit word, so every counter wraps the way the C does.
\<close>

type_synonym u8 = "8 word"
type_synonym u32 = "32 word"
type_synonym size_t = "64 word"

definition POOL_BLOCK_SIZE :: nat where
  "POOL_BLOCK_SIZE = 64"

definition POOL_NUM_BLOCKS :: nat where
  "POOL_NUM_BLOCKS = 32"

record MemoryBlock =
  data :: "u8 list"
  in_use :: bool

record MemoryPool =
  blocks :: "MemoryBlock list"
  allocated_count :: u32
  peak_usage :: u32

text \<open>
  The C arrays have a fixed extent; the lists of the model have it as a well-formedness
  condition, which every operation keeps.
\<close>

definition wf_pool :: "MemoryPool \<Rightarrow> bool" where
  "wf_pool pool \<longleftrightarrow>
     length (blocks pool) = POOL_NUM_BLOCKS \<and>
     list_all (\<lambda>b. length (data b) = POOL_BLOCK_SIZE) (blocks pool)"

text \<open>\<^verbatim>\<open>static MemoryPool g_memory_pool = {0};\<close>\<close>

definition g_memory_pool :: MemoryPool where
  "g_memory_pool =
     \<lparr>blocks = replicate POOL_NUM_BLOCKS \<lparr>data = replicate POOL_BLOCK_SIZE 0, in_use = False\<rparr>,
      allocated_count = 0, peak_usage = 0\<rparr>"

text \<open>
  Pointers. An address is counted in bytes from the address of \<^verbatim>\<open>g_memory_pool\<close>, so it
  may be negative or lie past the pool. \<^verbatim>\<open>MemoryBlock\<close> is 64 data bytes followed by a
  one-byte flag, so block \<open>i\<close> has its data at \<open>65 * i\<close>.
\<close>

datatype ptr = NULL | Addr int

text \<open>
  Pointer arithmetic on the 64-bit target wraps: adding \<open>k\<close> bytes to an address gives the
  address \<open>(a + k) mod 2^64\<close>. The pool itself occupies the offsets \<open>0 .. 2087\<close> and does
  not straddle the end of the address space, so the byte three before the pool is reached
  as \<open>2^64 - 3\<close>; like every address outside \<open>0 .. 2079\<close> it belongs to no block.
\<close>

definition ptr_add :: "int \<Rightarrow> int \<Rightarrow> int" where
  "ptr_add a k = (a + k) mod 2 ^ 64"

definition BLOCK_STRIDE :: nat where
  "BLOCK_STRIDE = POOL_BLOCK_SIZE + 1"

definition block_data :: "nat \<Rightarrow> int" where
  "block_data i = int (i * BLOCK_STRIDE)"

subsection \<open>pool\_alloc\<close>

text \<open>
  The C function returns \<^verbatim>\<open>NULL\<close> from two places, commented \<^verbatim>\<open>Invalid size\<close> and
  \<^verbatim>\<open>Pool exhausted\<close>. The model records which \<^verbatim>\<open>return\<close> was taken; \<open>alloc_value\<close>
  is the value the caller receives.
\<close>

datatype alloc_exit = AllocInvalidSize | AllocExhausted | AllocOk nat

fun alloc_value :: "alloc_exit \<Rightarrow> ptr" where
  "alloc_value AllocInvalidSize = NULL"
| "alloc_value AllocExhausted = NULL"
| "alloc_value (AllocOk i) = Addr (block_data i)"

function alloc_scan :: "nat \<Rightarrow> MemoryPool \<Rightarrow> alloc_exit \<times> MemoryPool" where
  "alloc_scan i pool =
     (if i < POOL_NUM_BLOCKS then
        (if \<not> in_use (blocks pool ! i) then
           (let pool1 = pool\<lparr>blocks := (blocks pool)[i := (blocks pool ! i)\<lparr>in_use := True\<rparr>]\<rparr>;
                pool2 = pool1\<lparr>allocated_count := allocated_count pool1 + 1\<rparr>;
                pool3 = (if allocated_count pool2 > peak_usage pool2
                         then pool2\<lparr>peak_usage := allocated_count pool2\<rparr> else pool2);
                pool4 = pool3\<lparr>blocks := (blocks pool3)
                          [i := (blocks pool3 ! i)\<lparr>data := replicate POOL_BLOCK_SIZE 0\<rparr>]\<rparr>
            in (AllocOk i, pool4))
         else alloc_scan (i + 1) pool)
      else (AllocExhausted, pool))"
  by pat_completeness auto
termination
  by (relation "measure (\<lambda>(i, pool). POOL_NUM_BLOCKS - i)") auto

definition pool_alloc :: "size_t \<Rightarrow> MemoryPool \<Rightarrow> alloc_exit \<times> MemoryPool" where
  "pool_alloc sz pool =
     (if sz = 0 \<or> sz > of_nat POOL_BLOCK_SIZE then (AllocInvalidSize, pool)
      else alloc_scan 0 pool)"

subsection \<open>pool\_free\<close>

text \<open>
  \<^verbatim>\<open>pool_free\<close> returns \<^verbatim>\<open>false\<close> for a null pointer, after the \<^verbatim>\<open>break\<close> commented
  \<^verbatim>\<open>Double free detected\<close>, and when the loop ends without a match
  (\<^verbatim>\<open>Invalid pointer\<close>).
\<close>

datatype free_exit = FreeNull | FreeInvalidPointer | FreeDoubleFree | FreeOk

fun free_value :: "free_exit \<Rightarrow> bool" where
  "free_value FreeOk = True"
| "free_value FreeNull = False"
| "free_value FreeInvalidPointer = False"
| "free_value FreeDoubleFree = False"

function free_scan :: "int \<Rightarrow> nat \<Rightarrow> MemoryPool \<Rightarrow> free_exit \<times> MemoryPool" where
  "free_scan p i pool =
     (if i < POOL_NUM_BLOCKS then
        (let block_start = block_data i;
             block_end = block_start + int POOL_BLOCK_SIZE
         in if p \<ge> block_start \<and> p < block_end then
              (if in_use (blocks pool ! i) then
                 (let pool1 = pool\<lparr>blocks := (blocks pool)[i := (blocks pool ! i)\<lparr>in_use := False\<rparr>]\<rparr>;
                      pool2 = pool1\<lparr>allocated_count := allocated_count pool1 - 1\<rparr>;
                      pool3 = pool2\<lparr>blocks := (blocks pool2)
                                [i := (blocks pool2 ! i)\<lparr>data := replicate POOL_BLOCK_SIZE 0\<rparr>]\<rparr>
                  in (FreeOk, pool3))
               else (FreeDoubleFree, pool))
            else free_scan p (i + 1) pool)
      else (FreeInvalidPointer, pool))"
  by pat_completeness auto
termination
  by (relation "measure (\<lambda>(p, i, pool). POOL_NUM_BLOCKS - i)") auto

definition pool_free :: "ptr \<Rightarrow> MemoryPool \<Rightarrow> free_exit \<times> MemoryPool" where
  "pool_free ptr pool =
     (case ptr of NULL \<Rightarrow> (FreeNull, pool) | Addr p \<Rightarrow> free_scan p 0 pool)"

subsection \<open>pool\_get\_stats and pool\_reset\<close>

text \<open>
  The three flags say which of the output pointers \<^verbatim>\<open>current\<close>, \<^verbatim>\<open>peak\<close> and
  \<^verbatim>\<open>total\<close> are not null; an output that is not asked for is \<open>None\<close>.
\<close>

definition pool_get_stats ::
  "bool \<Rightarrow> bool \<Rightarrow> bool \<Rightarrow> MemoryPool \<Rightarrow> (u32 option \<times> u32 option \<times> u32 option) \<times> MemoryPool" where
  "pool_get_stats current peak total_out pool =
     ((if current then Some (allocated_count pool) else None,
       if peak then Some (peak_usage pool) else None,
       if total_out then Some (of_nat POOL_NUM_BLOCKS) else None), pool)"

function reset_scan :: "nat \<Rightarrow> MemoryPool \<Rightarrow> MemoryPool" where
  "reset_scan i pool =
     (if i < POOL_NUM_BLOCKS then
        (let pool1 = pool\<lparr>blocks := (blocks pool)[i := (blocks pool ! i)\<lparr>in_use := False\<rparr>]\<rparr>;
             pool2 = pool1\<lparr>blocks := (blocks pool1)
                       [i := (blocks pool1 ! i)\<lparr>data := replicate POOL_BLOCK_SIZE 0\<rparr>]\<rparr>
         in reset_scan (i + 1) pool2)
      else pool)"
  by pat_completeness auto
termination
  by (relation "measure (\<lambda>(i, pool). POOL_NUM_BLOCKS - i)") auto

definition pool_reset :: "MemoryPool \<Rightarrow> MemoryPool" where
  "pool_reset pool = (reset_scan 0 pool)\<lparr>allocated_count := 0\<rparr>"

text \<open>The number of blocks in use, and the invariant that ties the counter to it.\<close>

definition used_blocks :: "MemoryPool \<Rightarrow> nat" where
  "used_blocks pool = length (filter in_use (blocks pool))"

definition pool_inv :: "MemoryPool \<Rightarrow> bool" where
  "pool_inv pool \<longleftrightarrow>
     wf_pool pool \<and> unat (allocated_count pool) = used_blocks pool \<and>
     unat (allocated_count pool) \<le> POOL_NUM_BLOCKS"

subsection \<open>Auxiliary definitions for the pool proofs\<close>

text \<open>
  The state \<^verbatim>\<open>pool_alloc\<close> leaves when it takes block \<open>k\<close>, the state
  \<^verbatim>\<open>pool_free\<close> leaves when it releases block \<open>k\<close>, the test of the \<^verbatim>\<open>pool_free\<close>
  loop, and a block as \<^verbatim>\<open>pool_reset\<close> leaves it.
\<close>

definition claim_block :: "nat \<Rightarrow> MemoryPool \<Rightarrow> MemoryPool" where
  "claim_block k pool =
     pool\<lparr>blocks := (blocks pool)[k := \<lparr>data = replicate POOL_BLOCK_SIZE 0, in_use = True\<rparr>],
          allocated_count := allocated_count pool + 1,
          peak_usage := (if allocated_count pool + 1 > peak_usage pool
                         then allocated_count pool + 1 else peak_usage pool)\<rparr>"

definition in_block :: "int \<Rightarrow> nat \<Rightarrow> bool" where
  "in_block p i \<longleftrightarrow> block_data i \<le> p \<and> p < block_data i + int POOL_BLOCK_SIZE"

definition release_block :: "nat \<Rightarrow> MemoryPool \<Rightarrow> MemoryPool" where
  "release_block k pool =
     pool\<lparr>blocks := (blocks pool)[k := \<lparr>data = replicate POOL_BLOCK_SIZE 0, in_use = False\<rparr>],
          allocated_count := allocated_count pool - 1\<rparr>"

definition cleared :: MemoryBlock where
  "cleared = \<lparr>data = replicate POOL_BLOCK_SIZE 0, in_use = False\<rparr>"

section \<open>Byte-level access to the block data\<close>

text \<open>
  The guarded buffers store 32-bit markers at byte addresses inside a block and hand the
  caller a pointer between them, so the data arrays are accessed by address here. An
  access is defined when all of its bytes lie inside the \<^verbatim>\<open>data\<close> array of one block;
  any other access through such a pointer leaves the array it was derived from, which is
  undefined behaviour in C, and is the value \<open>OutOfBounds\<close> of the model.
\<close>

datatype fault = OutOfBounds

text \<open>
  The block and the offset in its \<^verbatim>\<open>data\<close> array that an address denotes. The flag byte
  after each data array (offset 64 of the stride) belongs to no data array.
\<close>

definition locate :: "int \<Rightarrow> (nat \<times> nat) option" where
  "locate a =
     (if 0 \<le> a \<and> nat a div BLOCK_STRIDE < POOL_NUM_BLOCKS \<and> nat a mod BLOCK_STRIDE < POOL_BLOCK_SIZE
      then Some (nat a div BLOCK_STRIDE, nat a mod BLOCK_STRIDE) else None)"

definition load_bytes :: "MemoryPool \<Rightarrow> int \<Rightarrow> nat \<Rightarrow> fault + u8 list" where
  "load_bytes pool a n =
     (case locate a of
        None \<Rightarrow> Inl OutOfBounds
      | Some (i, k) \<Rightarrow>
          if k + n \<le> POOL_BLOCK_SIZE
          then Inr (take n (drop k (data (blocks pool ! i))))
          else Inl OutOfBounds)"

text \<open>
  \<open>overwrite k bs d\<close> is the array \<open>d\<close> with the bytes \<open>bs\<close> written from index \<open>k\<close>.
\<close>

definition overwrite :: "nat \<Rightarrow> 'a list \<Rightarrow> 'a list \<Rightarrow> 'a list" where
  "overwrite k bs d = take k d @ bs @ drop (k + length bs) d"

definition store_bytes :: "MemoryPool \<Rightarrow> int \<Rightarrow> u8 list \<Rightarrow> fault + MemoryPool" where
  "store_bytes pool a bs =
     (case locate a of
        None \<Rightarrow> Inl OutOfBounds
      | Some (i, k) \<Rightarrow>
          if k + length bs \<le> POOL_BLOCK_SIZE
          then Inr (pool\<lparr>blocks := (blocks pool)
                 [i := (blocks pool ! i)\<lparr>data := overwrite k bs (data (blocks pool ! i))\<rparr>]\<rparr>)
          else Inl OutOfBounds)"

text \<open>
  A \<^verbatim>\<open>uint32_t\<close> in memory is four bytes in the byte order of the target, which the C
  source does not fix; the model takes it as a parameter. \<open>le_bytes n v\<close> are the \<open>n\<close>
  low-order base-256 digits of \<open>v\<close>, least significant first, and \<open>le_value\<close> reads them
  back.
\<close>

datatype byte_order = LittleEndian | BigEndian

fun le_bytes :: "nat \<Rightarrow> nat \<Rightarrow> u8 list" where
  "le_bytes 0 v = []"
| "le_bytes (Suc n) v = of_nat (v mod 256) # le_bytes n (v div 256)"

fun le_value :: "u8 list \<Rightarrow> nat" where
  "le_value [] = 0"
| "le_value (b # bs) = unat b + 256 * le_value bs"

definition u32_bytes :: "byte_order \<Rightarrow> u32 \<Rightarrow> u8 list" where
  "u32_bytes bo w =
     (case bo of LittleEndian \<Rightarrow> le_bytes 4 (unat w) | BigEndian \<Rightarrow> rev (le_bytes 4 (unat w)))"

definition bytes_u32 :: "byte_order \<Rightarrow> u8 list \<Rightarrow> u32" where
  "bytes_u32 bo bs =
     of_nat (le_value (case bo of LittleEndian \<Rightarrow> bs | BigEndian \<Rightarrow> rev bs))"

definition load_u32 :: "byte_order \<Rightarrow> MemoryPool \<Rightarrow> int \<Rightarrow> fault + u32" where
  "load_u32 bo pool a =
     (case load_bytes pool a 4 of Inl f \<Rightarrow> Inl f | Inr bs \<Rightarrow> Inr (bytes_u32 bo bs))"

definition store_u32 :: "byte_order \<Rightarrow> MemoryPool \<Rightarrow> int \<Rightarrow> u32 \<Rightarrow> fault + MemoryPool" where
  "store_u32 bo pool a w = store_bytes pool a (u32_bytes bo w)"

section \<open>Guarded buffers\<close>

text \<open>
  \<^verbatim>\<open>#define GUARD_PATTERN 0xDEADBEEF\<close>
\<close>

definition GUARD_PATTERN :: u32 where
  "GUARD_PATTERN = 0xDEADBEEF"

text \<open>
  \<^verbatim>\<open>create_guarded_buffer\<close>. \<^verbatim>\<open>total_size\<close> is computed in \<^verbatim>\<open>size_t\<close> and wraps.
  \<^verbatim>\<open>buffer->guard_start\<close> is the four bytes at \<^verbatim>\<open>memory\<close>, \<^verbatim>\<open>buffer->data\<close> is
  \<^verbatim>\<open>memory + 4\<close>, and \<^verbatim>\<open>guard_end\<close> is \<^verbatim>\<open>buffer->data + size\<close>, an address that
  wraps as well: for a size close to \<^verbatim>\<open>SIZE_MAX\<close> it lies just before \<^verbatim>\<open>buffer->data\<close>.
  The pool returned with a fault is the pool at the moment of the faulting store.
\<close>

definition create_guarded_buffer ::
  "byte_order \<Rightarrow> size_t \<Rightarrow> MemoryPool \<Rightarrow> (fault + ptr) \<times> MemoryPool" where
  "create_guarded_buffer bo sz pool =
     (if sz = 0 then (Inr NULL, pool)
      else
        (let total_size = 4 + sz + 4;
             (ex, pool1) = pool_alloc total_size pool
         in case alloc_value ex of
              NULL \<Rightarrow> (Inr NULL, pool1)
            | Addr memory \<Rightarrow>
                (case store_u32 bo pool1 memory GUARD_PATTERN of
                   Inl f \<Rightarrow> (Inl f, pool1)
                 | Inr pool2 \<Rightarrow>
                     (let buffer_data = ptr_add memory 4;
                          guard_end = ptr_add buffer_data (uint sz)
                      in case store_u32 bo pool2 guard_end GUARD_PATTERN of
                           Inl f \<Rightarrow> (Inl f, pool2)
                         | Inr pool3 \<Rightarrow> (Inr (Addr buffer_data), pool3)))))"

text \<open>
  \<^verbatim>\<open>check_buffer_integrity\<close>. The \<^verbatim>\<open>&&\<close> reads the end marker only when the start
  marker matched.
\<close>

definition check_buffer_integrity ::
  "byte_order \<Rightarrow> ptr \<Rightarrow> size_t \<Rightarrow> MemoryPool \<Rightarrow> fault + bool" where
  "check_buffer_integrity bo ptr sz pool =
     (case ptr of
        NULL \<Rightarrow> Inr False
      | Addr p \<Rightarrow>
          if sz = 0 then Inr False
          else
            (case load_u32 bo pool (ptr_add p (- 4)) of
               Inl f \<Rightarrow> Inl f
             | Inr guard_start \<Rightarrow>
                 if guard_start \<noteq> GUARD_PATTERN then Inr False
                 else
                   (case load_u32 bo pool (ptr_add p (uint sz)) of
                      Inl f \<Rightarrow> Inl f
                    | Inr guard_end \<Rightarrow> Inr (guard_end = GUARD_PATTERN))))"

text \<open>
  \<^verbatim>\<open>free_guarded_buffer\<close> returns nothing. The model records which branch ran: the early
  return for a null pointer, the call of \<^verbatim>\<open>pool_free\<close> (with the value it returned,
  which the C discards), or the branch that prints the corruption warning.
\<close>

datatype guarded_free_exit = GuardedNull | GuardedReleased bool | GuardedCorrupted

definition free_guarded_buffer ::
  "byte_order \<Rightarrow> ptr \<Rightarrow> size_t \<Rightarrow> MemoryPool \<Rightarrow> (fault + guarded_free_exit) \<times> MemoryPool" where
  "free_guarded_buffer bo ptr sz pool =
     (case ptr of
        NULL \<Rightarrow> (Inr GuardedNull, pool)
      | Addr p \<Rightarrow>
          (case check_buffer_integrity bo ptr sz pool of
             Inl f \<Rightarrow> (Inl f, pool)
           | Inr ok \<Rightarrow>
               if ok then
                 (let (ex, pool1) = pool_free (Addr (ptr_add p (- 4))) pool
                  in (Inr (GuardedReleased (free_value ex)), pool1))
               else (Inr GuardedCorrupted, pool)))"

text \<open>
  What a caller does with the payload pointer: \<open>poke ptr k v\<close> is the assignment
  \<^verbatim>\<open>((uint8_t*)ptr)[k] = v\<close>, and \<open>write_bytes\<close> a sequence of such assignments.
  \<open>guard_byte bo j\<close> is byte \<open>j\<close> of the marker as it lies in memory.
\<close>

definition poke :: "ptr \<Rightarrow> int \<Rightarrow> u8 \<Rightarrow> MemoryPool \<Rightarrow> fault + MemoryPool" where
  "poke ptr k v pool =
     (case ptr of NULL \<Rightarrow> Inl OutOfBounds | Addr p \<Rightarrow> store_bytes pool (ptr_add p k) [v])"

fun write_bytes :: "ptr \<Rightarrow> (int \<times> u8) list \<Rightarrow> MemoryPool \<Rightarrow> fault + MemoryPool" where
  "write_bytes ptr [] pool = Inr pool"
| "write_bytes ptr ((k, v) # ws) pool =
     (case poke ptr k v pool of Inl f \<Rightarrow> Inl f | Inr pool1 \<Rightarrow> write_bytes ptr ws pool1)"

definition guard_byte :: "byte_order \<Rightarrow> nat \<Rightarrow> u8" where
  "guard_byte bo j = u32_bytes bo GUARD_PATTERN ! j"

section \<open>Safe string copy\<close>





section \<open>Secure comparison\<close>

text \<open>
  \<^verbatim>\<open>secure_memcmp\<close>. The loop returns the final value of \<open>i\<close> with the accumulator, so
  that the number of bytes it has read is part of its result.
\<close>

function memcmp_loop :: "nat \<Rightarrow> nat \<Rightarrow> u8 list \<Rightarrow> u8 list \<Rightarrow> u8 \<Rightarrow> fault + (nat \<times> u8)" where
  "memcmp_loop i n bytes1 bytes2 result =
     (if i < n then
        (if i < length bytes1 \<and> i < length bytes2
         then memcmp_loop (i + 1) n bytes1 bytes2 (result OR (bytes1 ! i XOR bytes2 ! i))
         else Inl OutOfBounds)
      else Inr (i, result))"
  by pat_completeness auto
termination
  by (relation "measure (\<lambda>(i, n, bytes1, bytes2, result). n - i)") auto

definition secure_memcmp :: "u8 list option \<Rightarrow> u8 list option \<Rightarrow> size_t \<Rightarrow> fault + bool" where
  "secure_memcmp ptr1 ptr2 sz =
     (case ptr1 of
        None \<Rightarrow> Inr False
      | Some bytes1 \<Rightarrow>
          (case ptr2 of
             None \<Rightarrow> Inr False
           | Some bytes2 \<Rightarrow>
               (case memcmp_loop 0 (unat sz) bytes1 bytes2 0 of
                  Inl f \<Rightarrow> Inl f
                | Inr (i, result) \<Rightarrow> Inr (result = 0))))"


section \<open>The pool: lemmas about the three scans\<close>

declare alloc_scan.simps [simp del] free_scan.simps [simp del] reset_scan.simps [simp del]

lemma block_overwrite:
  "(b::MemoryBlock)\<lparr>in_use := u, data := d\<rparr> = \<lparr>data = d, in_use = u\<rparr>"
  by (cases b) simp

lemma block_update_twice:
  "xs[i := (xs[i := (xs ! i)\<lparr>in_use := u\<rparr>] ! i)\<lparr>data := d\<rparr>]
     = xs[i := \<lparr>data = d, in_use = u\<rparr>]"
  by (cases "i < length xs") (simp_all add: block_overwrite list_update_beyond)

lemma alloc_scan_step:
  "i < POOL_NUM_BLOCKS \<Longrightarrow> \<not> in_use (blocks pool ! i) \<Longrightarrow>
     alloc_scan i pool = (AllocOk i, claim_block i pool)"
  by (subst alloc_scan.simps) (simp add: Let_def claim_block_def block_update_twice)

lemma alloc_scan_skip:
  "i < POOL_NUM_BLOCKS \<Longrightarrow> in_use (blocks pool ! i) \<Longrightarrow>
     alloc_scan i pool = alloc_scan (i + 1) pool"
  by (subst alloc_scan.simps) simp

lemma alloc_scan_end:
  "\<not> i < POOL_NUM_BLOCKS \<Longrightarrow> alloc_scan i pool = (AllocExhausted, pool)"
  by (subst alloc_scan.simps) simp

lemma alloc_scan_Ok:
  "alloc_scan i pool = (AllocOk k, pool') \<Longrightarrow>
     i \<le> k \<and> k < POOL_NUM_BLOCKS \<and> \<not> in_use (blocks pool ! k) \<and>
     (\<forall>j. i \<le> j \<and> j < k \<longrightarrow> in_use (blocks pool ! j)) \<and> pool' = claim_block k pool"
proof (induction i pool rule: alloc_scan.induct)
  case (1 i pool)
  show ?case
  proof (cases "i < POOL_NUM_BLOCKS")
    case False
    with "1.prems" show ?thesis by (auto simp: alloc_scan_end)
  next
    case lt: True
    show ?thesis
    proof (cases "in_use (blocks pool ! i)")
      case False
      with lt "1.prems" show ?thesis by (auto simp: alloc_scan_step)
    next
      case True
      with lt "1.prems" have "alloc_scan (i + 1) pool = (AllocOk k, pool')"
        by (simp add: alloc_scan_skip)
      from "1.IH"[OF lt _ this] True
      have *: "i + 1 \<le> k" "k < POOL_NUM_BLOCKS" "\<not> in_use (blocks pool ! k)"
        "\<forall>j. i + 1 \<le> j \<and> j < k \<longrightarrow> in_use (blocks pool ! j)" "pool' = claim_block k pool"
        by simp_all
      have "in_use (blocks pool ! j)" if "i \<le> j" "j < k" for j
        using that True *(4) by (cases "j = i") auto
      with * show ?thesis by simp
    qed
  qed
qed

lemma alloc_scan_Exhausted:
  "alloc_scan i pool = (AllocExhausted, pool') \<Longrightarrow>
     pool' = pool \<and> (\<forall>j. i \<le> j \<and> j < POOL_NUM_BLOCKS \<longrightarrow> in_use (blocks pool ! j))"
proof (induction i pool rule: alloc_scan.induct)
  case (1 i pool)
  show ?case
  proof (cases "i < POOL_NUM_BLOCKS")
    case False
    with "1.prems" show ?thesis by (auto simp: alloc_scan_end)
  next
    case lt: True
    show ?thesis
    proof (cases "in_use (blocks pool ! i)")
      case False
      with lt "1.prems" show ?thesis by (auto simp: alloc_scan_step)
    next
      case True
      with lt "1.prems" have "alloc_scan (i + 1) pool = (AllocExhausted, pool')"
        by (simp add: alloc_scan_skip)
      from "1.IH"[OF lt _ this] True
      have *: "pool' = pool" "\<forall>j. i + 1 \<le> j \<and> j < POOL_NUM_BLOCKS \<longrightarrow> in_use (blocks pool ! j)"
        by simp_all
      have "in_use (blocks pool ! j)" if "i \<le> j" "j < POOL_NUM_BLOCKS" for j
        using that True *(2) by (cases "j = i") auto
      with * show ?thesis by simp
    qed
  qed
qed

lemma alloc_scan_full:
  "(\<forall>j. i \<le> j \<and> j < POOL_NUM_BLOCKS \<longrightarrow> in_use (blocks pool ! j)) \<Longrightarrow>
     alloc_scan i pool = (AllocExhausted, pool)"
proof (induction i pool rule: alloc_scan.induct)
  case (1 i pool)
  show ?case
  proof (cases "i < POOL_NUM_BLOCKS")
    case False
    then show ?thesis by (simp add: alloc_scan_end)
  next
    case lt: True
    with "1.prems" have u: "in_use (blocks pool ! i)" by simp
    from "1.prems" have "\<forall>j. i + 1 \<le> j \<and> j < POOL_NUM_BLOCKS \<longrightarrow> in_use (blocks pool ! j)"
      by simp
    from "1.IH"[OF lt _ this] u lt show ?thesis by (simp add: alloc_scan_skip)
  qed
qed

lemma alloc_scan_not_invalid: "fst (alloc_scan i pool) \<noteq> AllocInvalidSize"
proof (induction i pool rule: alloc_scan.induct)
  case (1 i pool)
  show ?case
  proof (cases "i < POOL_NUM_BLOCKS")
    case False
    then show ?thesis by (simp add: alloc_scan_end)
  next
    case lt: True
    show ?thesis
    proof (cases "in_use (blocks pool ! i)")
      case False
      with lt show ?thesis by (simp add: alloc_scan_step)
    next
      case True
      with "1.IH"[OF lt] lt show ?thesis by (simp add: alloc_scan_skip)
    qed
  qed
qed

lemma alloc_scan_first:
  assumes "k < POOL_NUM_BLOCKS" "\<not> in_use (blocks pool ! k)" "\<forall>j<k. in_use (blocks pool ! j)"
  shows "alloc_scan 0 pool = (AllocOk k, claim_block k pool)"
proof -
  obtain e q where r: "alloc_scan 0 pool = (e, q)" by (cases "alloc_scan 0 pool")
  show ?thesis
  proof (cases e)
    case AllocInvalidSize
    with r alloc_scan_not_invalid[of 0 pool] show ?thesis by simp
  next
    case AllocExhausted
    with r alloc_scan_Exhausted[of 0 pool q] assms show ?thesis by auto
  next
    case (AllocOk k')
    with r alloc_scan_Ok[of 0 pool k' q]
    have *: "k' < POOL_NUM_BLOCKS" "\<not> in_use (blocks pool ! k')"
      "\<forall>j. j < k' \<longrightarrow> in_use (blocks pool ! j)" "q = claim_block k' pool"
      by simp_all
    have "k' = k"
    proof (rule ccontr)
      assume "k' \<noteq> k"
      then consider "k' < k" | "k < k'" by linarith
      then show False using assms * by cases auto
    qed
    with r AllocOk * show ?thesis by simp
  qed
qed

lemma in_block_unique: "in_block p i \<Longrightarrow> in_block p k \<Longrightarrow> i = k"
  unfolding in_block_def block_data_def BLOCK_STRIDE_def POOL_BLOCK_SIZE_def by auto

lemma free_scan_end:
  "\<not> i < POOL_NUM_BLOCKS \<Longrightarrow> free_scan p i pool = (FreeInvalidPointer, pool)"
  by (subst free_scan.simps) simp

lemma free_scan_here:
  "i < POOL_NUM_BLOCKS \<Longrightarrow> in_block p i \<Longrightarrow>
     free_scan p i pool =
       (if in_use (blocks pool ! i) then (FreeOk, release_block i pool) else (FreeDoubleFree, pool))"
  by (subst free_scan.simps)
     (simp add: Let_def in_block_def release_block_def block_update_twice)

lemma free_scan_skip:
  "i < POOL_NUM_BLOCKS \<Longrightarrow> \<not> in_block p i \<Longrightarrow> free_scan p i pool = free_scan p (i + 1) pool"
  by (subst free_scan.simps) (auto simp: Let_def in_block_def)

lemma free_scan_hit:
  "i \<le> k \<Longrightarrow> k < POOL_NUM_BLOCKS \<Longrightarrow> in_block p k \<Longrightarrow>
     free_scan p i pool =
       (if in_use (blocks pool ! k) then (FreeOk, release_block k pool) else (FreeDoubleFree, pool))"
proof (induction "k - i" arbitrary: i)
  case 0
  then have "i = k" by simp
  with 0 show ?case by (simp add: free_scan_here)
next
  case (Suc n)
  then have lt: "i < POOL_NUM_BLOCKS" and ne: "i \<noteq> k" by auto
  with Suc.prems have "\<not> in_block p i" using in_block_unique by blast
  with lt have "free_scan p i pool = free_scan p (i + 1) pool" by (rule free_scan_skip)
  moreover have "free_scan p (i + 1) pool =
       (if in_use (blocks pool ! k) then (FreeOk, release_block k pool) else (FreeDoubleFree, pool))"
    using Suc by (intro Suc.hyps(1)) auto
  ultimately show ?case by simp
qed

lemma free_scan_miss:
  "(\<forall>k. i \<le> k \<and> k < POOL_NUM_BLOCKS \<longrightarrow> \<not> in_block p k) \<Longrightarrow>
     free_scan p i pool = (FreeInvalidPointer, pool)"
proof (induction "POOL_NUM_BLOCKS - i" arbitrary: i)
  case 0
  then show ?case by (simp add: free_scan_end)
next
  case (Suc n)
  then have lt: "i < POOL_NUM_BLOCKS" by simp
  with Suc.prems have "\<not> in_block p i" by simp
  with lt have "free_scan p i pool = free_scan p (i + 1) pool" by (rule free_scan_skip)
  moreover have "free_scan p (i + 1) pool = (FreeInvalidPointer, pool)"
    using Suc by (intro Suc.hyps(1)) auto
  ultimately show ?case by simp
qed

lemma reset_scan_eq:
  "length (blocks pool) = POOL_NUM_BLOCKS \<Longrightarrow> i \<le> POOL_NUM_BLOCKS \<Longrightarrow>
     reset_scan i pool = pool\<lparr>blocks := take i (blocks pool) @ replicate (POOL_NUM_BLOCKS - i) cleared\<rparr>"
proof (induction "POOL_NUM_BLOCKS - i" arbitrary: i pool)
  case 0
  then show ?case by (subst reset_scan.simps) simp
next
  case (Suc n)
  then have lt: "i < POOL_NUM_BLOCKS" by simp
  let ?p = "pool\<lparr>blocks := (blocks pool)[i := cleared]\<rparr>"
  have step: "reset_scan i pool = reset_scan (i + 1) ?p"
    using lt by (subst reset_scan.simps) (simp add: Let_def block_update_twice cleared_def)
  have "reset_scan (i + 1) ?p =
      ?p\<lparr>blocks := take (i + 1) (blocks ?p) @ replicate (POOL_NUM_BLOCKS - (i + 1)) cleared\<rparr>"
    using Suc lt by (intro Suc.hyps(1)) auto
  moreover have "take (i + 1) (blocks ?p) = take i (blocks pool) @ [cleared]"
    using lt Suc.prems by (simp add: take_Suc_conv_app_nth)
  moreover have "replicate (POOL_NUM_BLOCKS - i) cleared
      = cleared # replicate (POOL_NUM_BLOCKS - (i + 1)) cleared"
    using lt by (cases "POOL_NUM_BLOCKS - i") auto
  ultimately show ?case using step by simp
qed

lemma pool_reset_eq:
  "wf_pool pool \<Longrightarrow>
     pool_reset pool = pool\<lparr>blocks := replicate POOL_NUM_BLOCKS cleared, allocated_count := 0\<rparr>"
  by (simp add: pool_reset_def wf_pool_def reset_scan_eq)

lemma peak_reset_scan: "peak_usage (reset_scan i pool) = peak_usage pool"
proof (induction i pool rule: reset_scan.induct)
  case (1 i pool)
  show ?case
  proof (cases "i < POOL_NUM_BLOCKS")
    case True
    then show ?thesis using "1.IH"[OF True refl refl]
      by (subst reset_scan.simps) (simp add: Let_def)
  next
    case False
    then show ?thesis by (subst reset_scan.simps) simp
  qed
qed

lemma valid_size_iff:
  "sz > (of_nat POOL_BLOCK_SIZE :: size_t) \<longleftrightarrow> POOL_BLOCK_SIZE < unat sz"
  by (simp add: word_less_nat_alt POOL_BLOCK_SIZE_def)

lemma pool_alloc_cases:
  obtains "pool_alloc sz pool = (AllocInvalidSize, pool)"
  | "pool_alloc sz pool = (AllocExhausted, pool)"
  | k where "pool_alloc sz pool = (AllocOk k, claim_block k pool)" "k < POOL_NUM_BLOCKS"
      "\<not> in_use (blocks pool ! k)"
proof (cases "sz = 0 \<or> sz > of_nat POOL_BLOCK_SIZE")
  case True
  then have "pool_alloc sz pool = (AllocInvalidSize, pool)" by (simp add: pool_alloc_def)
  then show ?thesis by (rule that(1))
next
  case False
  then have eq: "pool_alloc sz pool = alloc_scan 0 pool" by (simp add: pool_alloc_def)
  obtain e q where r: "alloc_scan 0 pool = (e, q)" by (cases "alloc_scan 0 pool")
  show ?thesis
  proof (cases e)
    case AllocInvalidSize
    with r alloc_scan_not_invalid[of 0 pool] show ?thesis by simp
  next
    case AllocExhausted
    with r alloc_scan_Exhausted[of 0 pool q] eq show ?thesis by (auto intro: that(2))
  next
    case (AllocOk k)
    with r alloc_scan_Ok[of 0 pool k q] eq show ?thesis by (auto intro: that(3))
  qed
qed

lemma pool_free_cases:
  obtains "fst (pool_free ptr pool) \<noteq> FreeOk" "snd (pool_free ptr pool) = pool"
  | k where "pool_free ptr pool = (FreeOk, release_block k pool)" "k < POOL_NUM_BLOCKS"
      "in_use (blocks pool ! k)"
proof (cases ptr)
  case NULL
  then show ?thesis by (intro that(1)) (simp_all add: pool_free_def)
next
  case (Addr p)
  show ?thesis
  proof (cases "\<exists>k. k < POOL_NUM_BLOCKS \<and> in_block p k")
    case False
    then have "free_scan p 0 pool = (FreeInvalidPointer, pool)"
      by (intro free_scan_miss) simp
    with Addr show ?thesis by (intro that(1)) (simp_all add: pool_free_def)
  next
    case True
    then obtain k where k: "k < POOL_NUM_BLOCKS" "in_block p k" by blast
    from free_scan_hit[OF _ k, of 0 pool]
    have r: "free_scan p 0 pool =
        (if in_use (blocks pool ! k) then (FreeOk, release_block k pool) else (FreeDoubleFree, pool))"
      by simp
    show ?thesis
    proof (cases "in_use (blocks pool ! k)")
      case True
      with r Addr k show ?thesis by (intro that(2)[of k]) (simp_all add: pool_free_def)
    next
      case False
      with r Addr show ?thesis by (intro that(1)) (simp_all add: pool_free_def)
    qed
  qed
qed

subsection \<open>The initial pool and its first allocation\<close>

lemma wf_initial: "wf_pool g_memory_pool"
  by (simp add: wf_pool_def g_memory_pool_def list_all_length)

lemma blocks_initial_length: "length (blocks g_memory_pool) = POOL_NUM_BLOCKS"
  by (simp add: g_memory_pool_def)

lemma initial_block: "k < POOL_NUM_BLOCKS \<Longrightarrow> blocks g_memory_pool ! k = cleared"
  by (simp add: g_memory_pool_def cleared_def)

lemma alloc_initial: "pool_alloc 16 g_memory_pool = (AllocOk 0, claim_block 0 g_memory_pool)"
proof -
  have "\<not> in_use (blocks g_memory_pool ! 0)"
    by (simp add: initial_block cleared_def POOL_NUM_BLOCKS_def)
  then have "alloc_scan 0 g_memory_pool = (AllocOk 0, claim_block 0 g_memory_pool)"
    by (intro alloc_scan_step) (simp_all add: POOL_NUM_BLOCKS_def)
  then show ?thesis by (simp add: pool_alloc_def POOL_BLOCK_SIZE_def)
qed

lemma in_block_0: "in_block 0 0"
  by (simp add: in_block_def block_data_def POOL_BLOCK_SIZE_def)

lemma claimed_in_use: "k < length (blocks pool) \<Longrightarrow> in_use (blocks (claim_block k pool) ! k)"
  by (simp add: claim_block_def)

lemma released_not_in_use:
  "k < length (blocks pool) \<Longrightarrow> \<not> in_use (blocks (release_block k pool) ! k)"
  by (simp add: release_block_def)

lemma free_after_alloc:
  "pool_free (Addr 0) (claim_block 0 g_memory_pool)
     = (FreeOk, release_block 0 (claim_block 0 g_memory_pool))"
  using free_scan_hit[of 0 0 0 "claim_block 0 g_memory_pool"] in_block_0
    claimed_in_use[of 0 g_memory_pool]
  by (simp add: pool_free_def blocks_initial_length POOL_NUM_BLOCKS_def)

subsection \<open>Counting the blocks in use\<close>

lemma filter_length_update:
  "k < length xs \<Longrightarrow>
     length (filter P (xs[k := y])) + (if P (xs ! k) then 1 else 0)
       = length (filter P xs) + (if P y then 1 else 0)"
proof (induction xs arbitrary: k)
  case Nil
  then show ?case by simp
next
  case (Cons x xs)
  show ?case
  proof (cases k)
    case 0
    then show ?thesis by simp
  next
    case (Suc m)
    with Cons.prems have "m < length xs" by simp
    from Cons.IH[OF this] Suc show ?thesis by simp
  qed
qed

lemma filter_length_free_slot:
  "k < length xs \<Longrightarrow> \<not> P (xs ! k) \<Longrightarrow> length (filter P xs) < length xs"
  using length_filter_less[of "xs ! k" xs P] by simp

lemma list_all_update:
  "list_all P xs \<Longrightarrow> P y \<Longrightarrow> list_all P (xs[k := y])"
  using set_update_subset_insert[of xs k y] by (auto simp: list_all_iff)

lemma wf_claim_block: "wf_pool pool \<Longrightarrow> wf_pool (claim_block k pool)"
  by (simp add: wf_pool_def claim_block_def list_all_update)

lemma wf_release_block: "wf_pool pool \<Longrightarrow> wf_pool (release_block k pool)"
  by (simp add: wf_pool_def release_block_def list_all_update)

lemma inv_claim_block:
  assumes "pool_inv pool" "k < POOL_NUM_BLOCKS" "\<not> in_use (blocks pool ! k)"
  shows "pool_inv (claim_block k pool)"
proof -
  from assms have wf: "wf_pool pool" and cnt: "unat (allocated_count pool) = used_blocks pool"
    by (simp_all add: pool_inv_def)
  from wf assms(2) have k: "k < length (blocks pool)" by (simp add: wf_pool_def)
  from filter_length_update[OF k, of in_use "\<lparr>data = replicate POOL_BLOCK_SIZE 0, in_use = True\<rparr>"] assms(3)
  have used: "used_blocks (claim_block k pool) = used_blocks pool + 1"
    by (simp add: used_blocks_def claim_block_def)
  from filter_length_free_slot[of k "blocks pool" in_use] k assms(3) wf
  have lt: "used_blocks pool < POOL_NUM_BLOCKS" by (simp add: used_blocks_def wf_pool_def)
  with cnt have "unat (allocated_count pool) < 32" by (simp add: POOL_NUM_BLOCKS_def)
  then have "unat (allocated_count pool + 1) = unat (allocated_count pool) + 1"
    by (simp add: unat_word_ariths)
  moreover have "allocated_count (claim_block k pool) = allocated_count pool + 1"
    by (simp add: claim_block_def)
  ultimately have "unat (allocated_count (claim_block k pool)) = used_blocks (claim_block k pool)"
    and "unat (allocated_count (claim_block k pool)) \<le> POOL_NUM_BLOCKS"
    using cnt used lt by simp_all
  with wf_claim_block[OF wf, of k] show ?thesis
    by (simp add: pool_inv_def)
qed

lemma inv_release_block:
  assumes "pool_inv pool" "k < POOL_NUM_BLOCKS" "in_use (blocks pool ! k)"
  shows "pool_inv (release_block k pool)"
proof -
  from assms have wf: "wf_pool pool" and cnt: "unat (allocated_count pool) = used_blocks pool"
    and le: "unat (allocated_count pool) \<le> POOL_NUM_BLOCKS"
    by (simp_all add: pool_inv_def)
  from wf assms(2) have k: "k < length (blocks pool)" by (simp add: wf_pool_def)
  from filter_length_update[OF k, of in_use "\<lparr>data = replicate POOL_BLOCK_SIZE 0, in_use = False\<rparr>"] assms(3)
  have used: "used_blocks (release_block k pool) + 1 = used_blocks pool"
    by (simp add: used_blocks_def release_block_def)
  with cnt have "unat (allocated_count pool) \<noteq> 0" by simp
  then have "allocated_count pool \<noteq> 0" by (simp add: unat_eq_0)
  then have "unat (allocated_count pool - 1) = unat (allocated_count pool) - 1"
    by (simp add: unat_minus_one)
  moreover have "allocated_count (release_block k pool) = allocated_count pool - 1"
    by (simp add: release_block_def)
  ultimately have "unat (allocated_count (release_block k pool)) = used_blocks (release_block k pool)"
    and "unat (allocated_count (release_block k pool)) \<le> POOL_NUM_BLOCKS"
    using cnt used le by simp_all
  with wf_release_block[OF wf, of k] show ?thesis
    by (simp add: pool_inv_def)
qed

lemma inv_initial: "pool_inv g_memory_pool"
  by (simp add: pool_inv_def wf_pool_def g_memory_pool_def used_blocks_def list_all_length)

lemma peak_claim_block: "peak_usage pool \<le> peak_usage (claim_block k pool)"
  by (auto simp: claim_block_def dest: less_imp_le)

section \<open>The pool: allocation, release and the counters\<close>

text \<open>
  Claim C3. \<^verbatim>\<open>pool_alloc\<close> leaves through the invalid-size return exactly when the size is
  zero or larger than \<open>POOL_BLOCK_SIZE\<close>. Otherwise it returns the first block, in
  ascending index order, whose \<open>in_use\<close> flag is clear, and leaves through the exhausted
  return exactly when every block is in use. On success the block is marked in use, all of
  its bytes are zero, \<open>allocated_count\<close> is one more than before and \<open>peak_usage\<close> is the
  new count whenever that exceeds the old peak; on failure the pool is unchanged.
\<close>

theorem pool_alloc_contract:
  "(fst (pool_alloc sz pool) = AllocInvalidSize \<longleftrightarrow> sz = 0 \<or> POOL_BLOCK_SIZE < unat sz) \<and>
   (fst (pool_alloc sz pool) = AllocExhausted \<longleftrightarrow>
      sz \<noteq> 0 \<and> unat sz \<le> POOL_BLOCK_SIZE \<and> (\<forall>j<POOL_NUM_BLOCKS. in_use (blocks pool ! j))) \<and>
   (\<forall>k. fst (pool_alloc sz pool) = AllocOk k \<longleftrightarrow>
      sz \<noteq> 0 \<and> unat sz \<le> POOL_BLOCK_SIZE \<and> k < POOL_NUM_BLOCKS \<and>
      \<not> in_use (blocks pool ! k) \<and> (\<forall>j<k. in_use (blocks pool ! j))) \<and>
   (\<forall>k. fst (pool_alloc sz pool) = AllocOk k \<longrightarrow>
      alloc_value (fst (pool_alloc sz pool)) = Addr (block_data k) \<and>
      snd (pool_alloc sz pool) =
        pool\<lparr>blocks := (blocks pool)[k := \<lparr>data = replicate POOL_BLOCK_SIZE 0, in_use = True\<rparr>],
             allocated_count := allocated_count pool + 1,
             peak_usage := (if allocated_count pool + 1 > peak_usage pool
                            then allocated_count pool + 1 else peak_usage pool)\<rparr>) \<and>
   ((\<forall>k. fst (pool_alloc sz pool) \<noteq> AllocOk k) \<longrightarrow> snd (pool_alloc sz pool) = pool)"
proof (cases "sz = 0 \<or> POOL_BLOCK_SIZE < unat sz")
  case True
  then have "pool_alloc sz pool = (AllocInvalidSize, pool)"
    by (simp add: pool_alloc_def valid_size_iff)
  with True show ?thesis by auto
next
  case False
  then have eq: "pool_alloc sz pool = alloc_scan 0 pool"
    by (simp add: pool_alloc_def valid_size_iff)
  have ok: "sz \<noteq> 0" "unat sz \<le> POOL_BLOCK_SIZE" using False by auto
  show ?thesis
  proof (cases "\<forall>j<POOL_NUM_BLOCKS. in_use (blocks pool ! j)")
    case True
    then have "alloc_scan 0 pool = (AllocExhausted, pool)"
      by (intro alloc_scan_full) simp
    with eq True ok show ?thesis by auto
  next
    case some: False
    obtain e q where r: "alloc_scan 0 pool = (e, q)" by (cases "alloc_scan 0 pool")
    have "e \<noteq> AllocInvalidSize" using r alloc_scan_not_invalid[of 0 pool] by auto
    moreover have "e \<noteq> AllocExhausted" using r alloc_scan_Exhausted[of 0 pool q] some by auto
    ultimately obtain k where e: "e = AllocOk k" by (cases e) auto
    with r alloc_scan_Ok[of 0 pool k q]
    have *: "k < POOL_NUM_BLOCKS" "\<not> in_use (blocks pool ! k)"
      "\<forall>j<k. in_use (blocks pool ! j)" "q = claim_block k pool"
      by simp_all
    have uniq: "k' = k" if "k' < POOL_NUM_BLOCKS" "\<not> in_use (blocks pool ! k')"
      "\<forall>j<k'. in_use (blocks pool ! j)" for k'
      using alloc_scan_first[OF that] r e by simp
    have res: "pool_alloc sz pool = (AllocOk k, claim_block k pool)"
      using eq r e * by simp
    have c1: "fst (pool_alloc sz pool) = AllocInvalidSize \<longleftrightarrow> sz = 0 \<or> POOL_BLOCK_SIZE < unat sz"
      using res False by simp
    have c2: "fst (pool_alloc sz pool) = AllocExhausted \<longleftrightarrow>
      sz \<noteq> 0 \<and> unat sz \<le> POOL_BLOCK_SIZE \<and> (\<forall>j<POOL_NUM_BLOCKS. in_use (blocks pool ! j))"
      using res some by simp
    have c3: "fst (pool_alloc sz pool) = AllocOk k' \<longleftrightarrow>
      sz \<noteq> 0 \<and> unat sz \<le> POOL_BLOCK_SIZE \<and> k' < POOL_NUM_BLOCKS \<and>
      \<not> in_use (blocks pool ! k') \<and> (\<forall>j<k'. in_use (blocks pool ! j))" for k'
      using res ok * uniq[of k'] by auto
    have c4: "alloc_value (fst (pool_alloc sz pool)) = Addr (block_data k') \<and>
      snd (pool_alloc sz pool) =
        pool\<lparr>blocks := (blocks pool)[k' := \<lparr>data = replicate POOL_BLOCK_SIZE 0, in_use = True\<rparr>],
             allocated_count := allocated_count pool + 1,
             peak_usage := (if allocated_count pool + 1 > peak_usage pool
                            then allocated_count pool + 1 else peak_usage pool)\<rparr>"
      if "fst (pool_alloc sz pool) = AllocOk k'" for k'
      using that res by (simp add: claim_block_def)
    have c5: "(\<forall>k. fst (pool_alloc sz pool) \<noteq> AllocOk k) \<longrightarrow> snd (pool_alloc sz pool) = pool"
      using res by simp
    from c1 c2 c3 c4 c5 show ?thesis by blast
  qed
qed

theorem pool_alloc_contract_witness:
  "fst (pool_alloc 16 g_memory_pool) = AllocOk 0 \<and>
   alloc_value (fst (pool_alloc 16 g_memory_pool)) = Addr 0 \<and>
   allocated_count (snd (pool_alloc 16 g_memory_pool)) = 1 \<and>
   peak_usage (snd (pool_alloc 16 g_memory_pool)) = 1 \<and>
   blocks (snd (pool_alloc 16 g_memory_pool)) ! 0 = \<lparr>data = replicate 64 0, in_use = True\<rparr> \<and>
   fst (pool_alloc 0 g_memory_pool) = AllocInvalidSize \<and>
   fst (pool_alloc 65 g_memory_pool) = AllocInvalidSize \<and>
   snd (pool_alloc 65 g_memory_pool) = g_memory_pool \<and>
   fst (pool_alloc 16 (g_memory_pool\<lparr>blocks :=
          replicate 32 \<lparr>data = replicate 64 0, in_use = True\<rparr>\<rparr>)) = AllocExhausted"
proof -
  have free0: "\<not> in_use (blocks g_memory_pool ! 0)"
    by (simp add: initial_block cleared_def POOL_NUM_BLOCKS_def)
  have a: "fst (pool_alloc 16 g_memory_pool) = AllocOk 0"
    using pool_alloc_contract[of 16 g_memory_pool] free0
    by (simp add: POOL_NUM_BLOCKS_def POOL_BLOCK_SIZE_def)
  have b: "alloc_value (fst (pool_alloc 16 g_memory_pool)) = Addr 0 \<and>
      snd (pool_alloc 16 g_memory_pool) =
        g_memory_pool\<lparr>blocks := (blocks g_memory_pool)[0 := \<lparr>data = replicate POOL_BLOCK_SIZE 0, in_use = True\<rparr>],
             allocated_count := allocated_count g_memory_pool + 1,
             peak_usage := (if allocated_count g_memory_pool + 1 > peak_usage g_memory_pool
                            then allocated_count g_memory_pool + 1 else peak_usage g_memory_pool)\<rparr>"
    using pool_alloc_contract[of 16 g_memory_pool] a by (simp add: block_data_def)
  have c: "fst (pool_alloc 0 g_memory_pool) = AllocInvalidSize"
    using pool_alloc_contract[of 0 g_memory_pool] by simp
  have d: "fst (pool_alloc 65 g_memory_pool) = AllocInvalidSize \<and>
      snd (pool_alloc 65 g_memory_pool) = g_memory_pool"
    using pool_alloc_contract[of 65 g_memory_pool] by (simp add: POOL_BLOCK_SIZE_def)
  have e: "fst (pool_alloc 16 (g_memory_pool\<lparr>blocks :=
          replicate 32 \<lparr>data = replicate 64 0, in_use = True\<rparr>\<rparr>)) = AllocExhausted"
    using pool_alloc_contract[of 16 "g_memory_pool\<lparr>blocks :=
          replicate 32 \<lparr>data = replicate 64 0, in_use = True\<rparr>\<rparr>"]
    by (simp add: POOL_NUM_BLOCKS_def POOL_BLOCK_SIZE_def)
  from a b c d e show ?thesis
    by (simp add: g_memory_pool_def POOL_NUM_BLOCKS_def POOL_BLOCK_SIZE_def)
qed

text \<open>
  Claim C4. For a pointer inside the data range of a block whose \<open>in_use\<close> flag is
  clear, \<^verbatim>\<open>pool_free\<close> leaves through the double-free \<^verbatim>\<open>break\<close>, returns
  \<^verbatim>\<open>false\<close>, and the pool afterwards is the pool before: counters, flags and bytes.
\<close>

theorem pool_free_double_free:
  assumes "k < POOL_NUM_BLOCKS"
    and "block_data k \<le> p" and "p < block_data k + int POOL_BLOCK_SIZE"
    and "\<not> in_use (blocks pool ! k)"
  shows "pool_free (Addr p) pool = (FreeDoubleFree, pool) \<and>
         free_value (fst (pool_free (Addr p) pool)) = False"
proof -
  from assms(2,3) have "in_block p k" by (simp add: in_block_def)
  from free_scan_hit[OF _ assms(1) this, of 0 pool] assms(4)
  have "free_scan p 0 pool = (FreeDoubleFree, pool)" by simp
  then show ?thesis by (simp add: pool_free_def)
qed

theorem pool_free_double_free_witness:
  "fst (pool_free (Addr 0) (snd (pool_alloc 16 g_memory_pool))) = FreeOk \<and>
   pool_free (Addr 0) (snd (pool_free (Addr 0) (snd (pool_alloc 16 g_memory_pool))))
     = (FreeDoubleFree, snd (pool_free (Addr 0) (snd (pool_alloc 16 g_memory_pool)))) \<and>
   pool_free (Addr 70) g_memory_pool = (FreeDoubleFree, g_memory_pool)"
proof -
  let ?q = "release_block 0 (claim_block 0 g_memory_pool)"
  have len: "0 < length (blocks (claim_block 0 g_memory_pool))"
    by (simp add: claim_block_def blocks_initial_length POOL_NUM_BLOCKS_def)
  have a: "pool_free (Addr 0) ?q = (FreeDoubleFree, ?q)"
    using pool_free_double_free[of 0 0 ?q] released_not_in_use[OF len]
    by (simp add: POOL_NUM_BLOCKS_def POOL_BLOCK_SIZE_def block_data_def)
  have b: "pool_free (Addr 70) g_memory_pool = (FreeDoubleFree, g_memory_pool)"
    using pool_free_double_free[of 1 70 g_memory_pool]
    by (simp add: POOL_NUM_BLOCKS_def POOL_BLOCK_SIZE_def block_data_def BLOCK_STRIDE_def
        initial_block cleared_def)
  from a b show ?thesis by (simp add: alloc_initial free_after_alloc)
qed

text \<open>
  Claim C5. The invariant (\<open>allocated_count\<close> is the number of blocks in use, and at most
  \<open>POOL_NUM_BLOCKS\<close>) holds of the initial pool and is kept by \<^verbatim>\<open>pool_alloc\<close>,
  \<^verbatim>\<open>pool_free\<close>, \<^verbatim>\<open>pool_get_stats\<close> and \<^verbatim>\<open>pool_reset\<close>.
\<close>

theorem pool_invariant:
  "pool_inv g_memory_pool \<and>
   (pool_inv pool \<longrightarrow>
      pool_inv (snd (pool_alloc sz pool)) \<and>
      pool_inv (snd (pool_free ptr pool)) \<and>
      pool_inv (snd (pool_get_stats current peak total_out pool)) \<and>
      pool_inv (pool_reset pool))"
proof (intro conjI impI)
  show "pool_inv g_memory_pool" by (rule inv_initial)
next
  assume inv: "pool_inv pool"
  show "pool_inv (snd (pool_alloc sz pool))"
    by (rule pool_alloc_cases[of sz pool]) (simp_all add: inv inv_claim_block)
next
  assume inv: "pool_inv pool"
  show "pool_inv (snd (pool_free ptr pool))"
    by (rule pool_free_cases[of ptr pool]) (simp_all add: inv inv_release_block)
next
  assume inv: "pool_inv pool"
  then show "pool_inv (snd (pool_get_stats current peak total_out pool))"
    by (simp add: pool_get_stats_def)
next
  assume inv: "pool_inv pool"
  then have wf: "wf_pool pool" by (simp add: pool_inv_def)
  show "pool_inv (pool_reset pool)"
    by (simp add: pool_reset_eq[OF wf])
       (simp add: pool_inv_def wf_pool_def used_blocks_def cleared_def list_all_length)
qed

theorem pool_invariant_witness:
  "pool_inv g_memory_pool \<and>
   pool_inv (snd (pool_alloc 16 g_memory_pool)) \<and>
   pool_inv (snd (pool_free (Addr 0) (snd (pool_alloc 16 g_memory_pool)))) \<and>
   pool_inv (snd (pool_get_stats True True True (snd (pool_alloc 16 g_memory_pool)))) \<and>
   pool_inv (pool_reset (snd (pool_alloc 16 g_memory_pool))) \<and>
   allocated_count (snd (pool_alloc 16 g_memory_pool)) = 1 \<and>
   used_blocks (snd (pool_alloc 16 g_memory_pool)) = 1"
proof -
  have a: "pool_inv g_memory_pool"
    using pool_invariant[of g_memory_pool 16 NULL True True True] by blast
  then have b: "pool_inv (snd (pool_alloc 16 g_memory_pool))"
    using pool_invariant[of g_memory_pool 16 NULL True True True] by blast
  then have c: "pool_inv (snd (pool_free (Addr 0) (snd (pool_alloc 16 g_memory_pool)))) \<and>
      pool_inv (snd (pool_get_stats True True True (snd (pool_alloc 16 g_memory_pool)))) \<and>
      pool_inv (pool_reset (snd (pool_alloc 16 g_memory_pool)))"
    using pool_invariant[of "snd (pool_alloc 16 g_memory_pool)" 16 "Addr 0" True True True]
    by blast
  have d: "allocated_count (snd (pool_alloc 16 g_memory_pool)) = 1"
    by (simp add: alloc_initial) (simp add: claim_block_def g_memory_pool_def)
  with b have "used_blocks (snd (pool_alloc 16 g_memory_pool)) = 1"
    by (simp add: pool_inv_def)
  with a b c d show ?thesis by simp
qed

text \<open>
  Claim C6. No pool operation lowers \<open>peak_usage\<close>, from any pool state:
  \<^verbatim>\<open>pool_alloc\<close> leaves it at least as large, \<^verbatim>\<open>pool_free\<close>, \<^verbatim>\<open>pool_get_stats\<close>
  and \<^verbatim>\<open>pool_reset\<close> leave it as it was, and \<^verbatim>\<open>pool_reset\<close> sets
  \<open>allocated_count\<close> to zero.
\<close>

theorem peak_usage_monotone:
  "peak_usage pool \<le> peak_usage (snd (pool_alloc sz pool)) \<and>
   peak_usage (snd (pool_free ptr pool)) = peak_usage pool \<and>
   peak_usage (snd (pool_get_stats current peak total_out pool)) = peak_usage pool \<and>
   peak_usage (pool_reset pool) = peak_usage pool \<and>
   allocated_count (pool_reset pool) = 0"
proof (intro conjI)
  show "peak_usage pool \<le> peak_usage (snd (pool_alloc sz pool))"
    by (rule pool_alloc_cases[of sz pool]) (simp_all add: peak_claim_block)
  show "peak_usage (snd (pool_free ptr pool)) = peak_usage pool"
    by (rule pool_free_cases[of ptr pool]) (simp_all add: release_block_def)
  show "peak_usage (snd (pool_get_stats current peak total_out pool)) = peak_usage pool"
    by (simp add: pool_get_stats_def)
  show "peak_usage (pool_reset pool) = peak_usage pool"
    by (simp add: pool_reset_def peak_reset_scan)
  show "allocated_count (pool_reset pool) = 0"
    by (simp add: pool_reset_def)
qed

theorem peak_usage_monotone_witness:
  "peak_usage (snd (pool_alloc 16 g_memory_pool)) = 1 \<and>
   peak_usage (snd (pool_free (Addr 0) (snd (pool_alloc 16 g_memory_pool)))) = 1 \<and>
   peak_usage (pool_reset (snd (pool_alloc 16 g_memory_pool))) = 1 \<and>
   allocated_count (pool_reset (snd (pool_alloc 16 g_memory_pool))) = 0"
proof -
  have "peak_usage (snd (pool_alloc 16 g_memory_pool)) = 1"
    by (simp add: alloc_initial) (simp add: claim_block_def g_memory_pool_def)
  with peak_usage_monotone[of "snd (pool_alloc 16 g_memory_pool)" 16 "Addr 0" True True True]
  show ?thesis by simp
qed

text \<open>
  Claim C10. Every failure cause of \<^verbatim>\<open>pool_alloc\<close> gives the caller the same value: an
  invalid size and a pool with every block in use both return \<^verbatim>\<open>NULL\<close> and leave the
  pool as it was, and \<^verbatim>\<open>NULL\<close> is returned in no other case. Every failure cause of
  \<^verbatim>\<open>pool_free\<close> gives the caller \<^verbatim>\<open>false\<close>: a null pointer, a pointer outside the data
  range of every block, and a pointer into a block that is not in use, each with the pool
  as it was, and \<^verbatim>\<open>false\<close> is returned in no other case. The returned value therefore
  tells failure from success and nothing about the cause.
\<close>

theorem pool_failures_indistinguishable:
  "(sz = 0 \<or> POOL_BLOCK_SIZE < unat sz \<longrightarrow>
      alloc_value (fst (pool_alloc sz pool)) = NULL \<and> snd (pool_alloc sz pool) = pool) \<and>
   ((\<forall>j<POOL_NUM_BLOCKS. in_use (blocks pool ! j)) \<longrightarrow>
      alloc_value (fst (pool_alloc sz pool)) = NULL \<and> snd (pool_alloc sz pool) = pool) \<and>
   (alloc_value (fst (pool_alloc sz pool)) = NULL \<longleftrightarrow>
      sz = 0 \<or> POOL_BLOCK_SIZE < unat sz \<or> (\<forall>j<POOL_NUM_BLOCKS. in_use (blocks pool ! j))) \<and>
   free_value (fst (pool_free NULL pool)) = False \<and> snd (pool_free NULL pool) = pool \<and>
   ((\<forall>k<POOL_NUM_BLOCKS. \<not> (block_data k \<le> p \<and> p < block_data k + int POOL_BLOCK_SIZE)) \<longrightarrow>
      free_value (fst (pool_free (Addr p) pool)) = False \<and> snd (pool_free (Addr p) pool) = pool) \<and>
   ((\<exists>k<POOL_NUM_BLOCKS. block_data k \<le> p \<and> p < block_data k + int POOL_BLOCK_SIZE \<and>
        \<not> in_use (blocks pool ! k)) \<longrightarrow>
      free_value (fst (pool_free (Addr p) pool)) = False \<and> snd (pool_free (Addr p) pool) = pool) \<and>
   (free_value (fst (pool_free (Addr p) pool)) = False \<longleftrightarrow>
      (\<forall>k<POOL_NUM_BLOCKS. \<not> (block_data k \<le> p \<and> p < block_data k + int POOL_BLOCK_SIZE)) \<or>
      (\<exists>k<POOL_NUM_BLOCKS. block_data k \<le> p \<and> p < block_data k + int POOL_BLOCK_SIZE \<and>
        \<not> in_use (blocks pool ! k)))"
proof -
  let ?invalid = "sz = 0 \<or> POOL_BLOCK_SIZE < unat sz"
  let ?full = "\<forall>j<POOL_NUM_BLOCKS. in_use (blocks pool ! j)"
  have a1: "alloc_value (fst (pool_alloc sz pool)) = NULL \<and> snd (pool_alloc sz pool) = pool"
    if ?invalid
  proof -
    from that have "pool_alloc sz pool = (AllocInvalidSize, pool)"
      by (simp add: pool_alloc_def valid_size_iff)
    then show ?thesis by simp
  qed
  have a2: "alloc_value (fst (pool_alloc sz pool)) = NULL \<and> snd (pool_alloc sz pool) = pool"
    if full: ?full
  proof (cases ?invalid)
    case True
    then show ?thesis by (rule a1)
  next
    case False
    then have "pool_alloc sz pool = alloc_scan 0 pool"
      by (simp add: pool_alloc_def valid_size_iff)
    moreover have "alloc_scan 0 pool = (AllocExhausted, pool)"
      using full by (intro alloc_scan_full) simp
    ultimately show ?thesis by simp
  qed
  have a3: "alloc_value (fst (pool_alloc sz pool)) \<noteq> NULL" if "\<not> ?invalid" "\<not> ?full"
  proof -
    from that(1) have eq: "pool_alloc sz pool = alloc_scan 0 pool"
      by (simp add: pool_alloc_def valid_size_iff)
    obtain e q where r: "alloc_scan 0 pool = (e, q)" by (cases "alloc_scan 0 pool")
    have "e \<noteq> AllocInvalidSize" using r alloc_scan_not_invalid[of 0 pool] by auto
    moreover have "e \<noteq> AllocExhausted" using r alloc_scan_Exhausted[of 0 pool q] that(2) by auto
    ultimately obtain k where "e = AllocOk k" by (cases e) auto
    with eq r show ?thesis by simp
  qed
  have a: "alloc_value (fst (pool_alloc sz pool)) = NULL \<longleftrightarrow> ?invalid \<or> ?full"
    using a1 a2 a3 by blast
  let ?inside = "\<lambda>k. block_data k \<le> p \<and> p < block_data k + int POOL_BLOCK_SIZE"
  have f0: "free_value (fst (pool_free NULL pool)) = False \<and> snd (pool_free NULL pool) = pool"
    by (simp add: pool_free_def)
  have f1: "free_value (fst (pool_free (Addr p) pool)) = False \<and> snd (pool_free (Addr p) pool) = pool"
    if "\<forall>k<POOL_NUM_BLOCKS. \<not> ?inside k"
  proof -
    from that have "\<forall>k. 0 \<le> k \<and> k < POOL_NUM_BLOCKS \<longrightarrow> \<not> in_block p k"
      by (simp add: in_block_def)
    then have "free_scan p 0 pool = (FreeInvalidPointer, pool)" by (rule free_scan_miss)
    then show ?thesis by (simp add: pool_free_def)
  qed
  have hit: "pool_free (Addr p) pool =
      (if in_use (blocks pool ! k) then (FreeOk, release_block k pool) else (FreeDoubleFree, pool))"
    if "k < POOL_NUM_BLOCKS" "?inside k" for k
  proof -
    from that(2) have "in_block p k" by (simp add: in_block_def)
    from free_scan_hit[OF _ that(1) this, of 0 pool] show ?thesis by (simp add: pool_free_def)
  qed
  have f2: "free_value (fst (pool_free (Addr p) pool)) = False \<and> snd (pool_free (Addr p) pool) = pool"
    if "\<exists>k<POOL_NUM_BLOCKS. ?inside k \<and> \<not> in_use (blocks pool ! k)"
  proof -
    from that obtain k where "k < POOL_NUM_BLOCKS" "?inside k" "\<not> in_use (blocks pool ! k)"
      by blast
    with hit[of k] show ?thesis by simp
  qed
  have f3: "free_value (fst (pool_free (Addr p) pool)) = True"
    if "\<not> (\<forall>k<POOL_NUM_BLOCKS. \<not> ?inside k)"
      "\<not> (\<exists>k<POOL_NUM_BLOCKS. ?inside k \<and> \<not> in_use (blocks pool ! k))"
  proof -
    from that obtain k where "k < POOL_NUM_BLOCKS" "?inside k" "in_use (blocks pool ! k)"
      by blast
    with hit[of k] show ?thesis by simp
  qed
  have f: "free_value (fst (pool_free (Addr p) pool)) = False \<longleftrightarrow>
      (\<forall>k<POOL_NUM_BLOCKS. \<not> ?inside k) \<or>
      (\<exists>k<POOL_NUM_BLOCKS. ?inside k \<and> \<not> in_use (blocks pool ! k))"
    using f1 f2 f3 by blast
  from a1 a2 a f0 f1 f2 f show ?thesis by blast
qed

theorem pool_failures_indistinguishable_witness:
  "alloc_value (fst (pool_alloc 0 g_memory_pool)) = NULL \<and>
   alloc_value (fst (pool_alloc 65 g_memory_pool)) = NULL \<and>
   alloc_value (fst (pool_alloc 16 (g_memory_pool\<lparr>blocks :=
          replicate 32 \<lparr>data = replicate 64 0, in_use = True\<rparr>\<rparr>))) = NULL \<and>
   alloc_value (fst (pool_alloc 16 g_memory_pool)) \<noteq> NULL \<and>
   free_value (fst (pool_free NULL g_memory_pool)) = False \<and>
   free_value (fst (pool_free (Addr (- 1)) g_memory_pool)) = False \<and>
   free_value (fst (pool_free (Addr 5000) g_memory_pool)) = False \<and>
   free_value (fst (pool_free (Addr 64) (claim_block 0 g_memory_pool))) = False \<and>
   free_value (fst (pool_free (Addr 0) g_memory_pool)) = False \<and>
   free_value (fst (pool_free (Addr 70) g_memory_pool)) = False \<and>
   free_value (fst (pool_free (Addr 63) (claim_block 0 g_memory_pool))) = True"
proof -
  let ?full = "g_memory_pool\<lparr>blocks := replicate 32 \<lparr>data = replicate 64 0, in_use = True\<rparr>\<rparr>"
  note c = POOL_NUM_BLOCKS_def POOL_BLOCK_SIZE_def block_data_def BLOCK_STRIDE_def
  have a: "alloc_value (fst (pool_alloc 0 g_memory_pool)) = NULL"
    using pool_failures_indistinguishable[of 0 g_memory_pool 0] by simp
  have b: "alloc_value (fst (pool_alloc 65 g_memory_pool)) = NULL"
    using pool_failures_indistinguishable[of 65 g_memory_pool 0] by (simp add: c)
  have "\<forall>j<POOL_NUM_BLOCKS. in_use (blocks ?full ! j)" by (simp add: c)
  with pool_failures_indistinguishable[of 16 ?full 0]
  have d: "alloc_value (fst (pool_alloc 16 ?full)) = NULL" by blast
  have "\<not> in_use (blocks g_memory_pool ! 0)"
    by (simp add: initial_block cleared_def POOL_NUM_BLOCKS_def)
  then have "\<not> (\<forall>j<POOL_NUM_BLOCKS. in_use (blocks g_memory_pool ! j))"
    by (auto simp: POOL_NUM_BLOCKS_def intro: exI[of _ 0])
  then have "\<not> ((16 :: size_t) = 0 \<or> POOL_BLOCK_SIZE < unat (16 :: size_t) \<or>
      (\<forall>j<POOL_NUM_BLOCKS. in_use (blocks g_memory_pool ! j)))"
    by (simp add: POOL_BLOCK_SIZE_def)
  with pool_failures_indistinguishable[of 16 g_memory_pool 0]
  have e: "alloc_value (fst (pool_alloc 16 g_memory_pool)) \<noteq> NULL" by blast
  have f: "free_value (fst (pool_free NULL g_memory_pool)) = False"
    using pool_failures_indistinguishable[of 0 g_memory_pool 0] by blast
  have out: "\<forall>k<POOL_NUM_BLOCKS. \<not> (block_data k \<le> p \<and> p < block_data k + int POOL_BLOCK_SIZE)"
    if "p = - 1 \<or> p = 5000 \<or> p = 64" for p
    using that by (auto simp: c)
  have g: "free_value (fst (pool_free (Addr (- 1)) g_memory_pool)) = False"
    using pool_failures_indistinguishable[of 0 g_memory_pool "- 1"] out[of "- 1"] by blast
  have h: "free_value (fst (pool_free (Addr 5000) g_memory_pool)) = False"
    using pool_failures_indistinguishable[of 0 g_memory_pool 5000] out[of 5000] by blast
  have i: "free_value (fst (pool_free (Addr 64) (claim_block 0 g_memory_pool))) = False"
    using pool_failures_indistinguishable[of 0 "claim_block 0 g_memory_pool" 64] out[of 64] by blast
  have "\<exists>k<POOL_NUM_BLOCKS. block_data k \<le> 0 \<and> 0 < block_data k + int POOL_BLOCK_SIZE \<and>
        \<not> in_use (blocks g_memory_pool ! k)"
    by (rule exI[of _ 0]) (simp add: c initial_block[unfolded POOL_NUM_BLOCKS_def] cleared_def)
  with pool_failures_indistinguishable[of 0 g_memory_pool 0]
  have j: "free_value (fst (pool_free (Addr 0) g_memory_pool)) = False" by blast
  have "\<exists>k<POOL_NUM_BLOCKS. block_data k \<le> 70 \<and> 70 < block_data k + int POOL_BLOCK_SIZE \<and>
        \<not> in_use (blocks g_memory_pool ! k)"
    by (rule exI[of _ 1]) (simp add: c initial_block[unfolded POOL_NUM_BLOCKS_def] cleared_def)
  with pool_failures_indistinguishable[of 0 g_memory_pool 70]
  have k: "free_value (fst (pool_free (Addr 70) g_memory_pool)) = False" by blast
  have in0: "block_data 0 \<le> 63 \<and> 63 < block_data 0 + int POOL_BLOCK_SIZE" by (simp add: c)
  have used: "in_use (blocks (claim_block 0 g_memory_pool) ! 0)"
    by (rule claimed_in_use) (simp add: blocks_initial_length POOL_NUM_BLOCKS_def)
  have only0: "k = 0" if "k < POOL_NUM_BLOCKS" "block_data k \<le> 63 \<and> 63 < block_data k + int POOL_BLOCK_SIZE" for k
    using that by (simp add: c)
  have n1: "\<not> (\<forall>k<POOL_NUM_BLOCKS. \<not> (block_data k \<le> 63 \<and> 63 < block_data k + int POOL_BLOCK_SIZE))"
    using in0 by (auto simp: POOL_NUM_BLOCKS_def intro: exI[of _ 0])
  have n2: "\<not> (\<exists>k<POOL_NUM_BLOCKS. block_data k \<le> 63 \<and> 63 < block_data k + int POOL_BLOCK_SIZE \<and>
        \<not> in_use (blocks (claim_block 0 g_memory_pool) ! k))"
    using used only0 by blast
  have "\<not> ((\<forall>k<POOL_NUM_BLOCKS. \<not> (block_data k \<le> 63 \<and> 63 < block_data k + int POOL_BLOCK_SIZE)) \<or>
      (\<exists>k<POOL_NUM_BLOCKS. block_data k \<le> 63 \<and> 63 < block_data k + int POOL_BLOCK_SIZE \<and>
        \<not> in_use (blocks (claim_block 0 g_memory_pool) ! k)))"
    using n1 n2 by blast
  with pool_failures_indistinguishable[of 0 "claim_block 0 g_memory_pool" 63]
  have l: "free_value (fst (pool_free (Addr 63) (claim_block 0 g_memory_pool))) = True" by blast
  from a b d e f g h i j k l show ?thesis by blast
qed

section \<open>Lemmas: the byte encoding of a marker\<close>

lemma length_le_bytes: "length (le_bytes n v) = n"
  by (induction n arbitrary: v) simp_all

lemma le_value_le_bytes: "le_value (le_bytes n v) = v mod 256 ^ n"
proof (induction n arbitrary: v)
  case 0
  then show ?case by simp
next
  case (Suc n)
  have "unat (of_nat (v mod 256) :: u8) = v mod 256"
    by (simp add: unat_of_nat)
  with Suc show ?case
    by (simp add: mod_mult2_eq)
qed

lemma le_value_bound: "le_value bs < 256 ^ length bs"
proof (induction bs)
  case Nil
  then show ?case by simp
next
  case (Cons b bs)
  have "unat b < 256" using unsigned_less[of b, where ?'a = nat] by simp
  with Cons show ?case by simp
qed

lemma le_value_inj:
  "length bs = length cs \<Longrightarrow> le_value bs = le_value cs \<Longrightarrow> bs = cs"
proof (induction bs arbitrary: cs)
  case Nil
  then show ?case by simp
next
  case (Cons b bs)
  then obtain c cs' where cs: "cs = c # cs'" by (cases cs) auto
  have b: "unat b < 256" and c: "unat c < 256"
    using unsigned_less[of b, where ?'a = nat] unsigned_less[of c, where ?'a = nat] by simp_all
  from Cons.prems cs have eq: "unat b + 256 * le_value bs = unat c + 256 * le_value cs'"
    by simp
  have "unat b = (unat b + 256 * le_value bs) mod 256" using b by simp
  also have "\<dots> = (unat c + 256 * le_value cs') mod 256" using eq by simp
  also have "\<dots> = unat c" using c by simp
  finally have bc: "unat b = unat c" .
  with eq have "unat b = unat c" "le_value bs = le_value cs'" by simp_all
  with Cons.IH[of cs'] Cons.prems cs show ?case by (simp add: word_unat_eq_iff)
qed

lemma length_u32_bytes: "length (u32_bytes bo w) = 4"
  by (cases bo) (simp_all add: u32_bytes_def length_le_bytes)

lemma bytes_u32_bytes: "bytes_u32 bo (u32_bytes bo w) = w"
proof -
  have "unat w < 256 ^ 4" using unsigned_less[of w, where ?'a = nat] by simp
  then have "le_value (le_bytes 4 (unat w)) = unat w"
    by (simp add: le_value_le_bytes)
  then show ?thesis by (cases bo) (simp_all add: bytes_u32_def u32_bytes_def)
qed

lemma le_value_u32: "length bs = 4 \<Longrightarrow> unat (of_nat (le_value bs) :: u32) = le_value bs"
proof -
  assume "length bs = 4"
  with le_value_bound[of bs] have "le_value bs < 256 ^ 4" by simp
  also have "(256::nat) ^ 4 = 2 ^ LENGTH(32)" by simp
  finally have "le_value bs mod 2 ^ LENGTH(32) = le_value bs" by (rule mod_less)
  then show ?thesis by (simp only: unat_of_nat)
qed

lemma bytes_u32_inj:
  assumes "length bs = 4" "length cs = 4" "bytes_u32 bo bs = bytes_u32 bo cs"
  shows "bs = cs"
proof (cases bo)
  case LittleEndian
  with assms(3) have "(of_nat (le_value bs) :: u32) = of_nat (le_value cs)"
    by (simp add: bytes_u32_def)
  then have "unat (of_nat (le_value bs) :: u32) = unat (of_nat (le_value cs) :: u32)"
    by (rule arg_cong)
  then have "le_value bs = le_value cs"
    by (simp only: le_value_u32[OF assms(1)] le_value_u32[OF assms(2)])
  with assms show ?thesis by (intro le_value_inj) simp_all
next
  case BigEndian
  have len: "length (rev bs) = 4" "length (rev cs) = 4" using assms by simp_all
  from BigEndian assms(3) have "(of_nat (le_value (rev bs)) :: u32) = of_nat (le_value (rev cs))"
    by (simp add: bytes_u32_def)
  then have "unat (of_nat (le_value (rev bs)) :: u32) = unat (of_nat (le_value (rev cs)) :: u32)"
    by (rule arg_cong)
  then have "le_value (rev bs) = le_value (rev cs)"
    by (simp only: le_value_u32[OF len(1)] le_value_u32[OF len(2)])
  with len have "rev bs = rev cs" by (intro le_value_inj) simp_all
  then show ?thesis by simp
qed

lemma le_bytes_4:
  "le_bytes 4 v = [of_nat (v mod 256), of_nat (v div 256 mod 256),
                   of_nat (v div 65536 mod 256), of_nat (v div 16777216 mod 256)]"
proof -
  have four: "(4::nat) = Suc (Suc (Suc (Suc 0)))" by simp
  show ?thesis by (subst four) (simp add: div_mult2_eq[symmetric])
qed

lemma guard_bytes_le:
  "u32_bytes LittleEndian GUARD_PATTERN = [0xEF, 0xBE, 0xAD, 0xDE]"
  by (simp add: u32_bytes_def GUARD_PATTERN_def le_bytes_4)

lemma guard_bytes_be:
  "u32_bytes BigEndian GUARD_PATTERN = [0xDE, 0xAD, 0xBE, 0xEF]"
  by (simp add: u32_bytes_def GUARD_PATTERN_def le_bytes_4)

section \<open>Lemmas: overwriting part of an array, and addresses\<close>

lemma length_overwrite:
  "k + length bs \<le> length d \<Longrightarrow> length (overwrite k bs d) = length d"
  by (simp add: overwrite_def)

lemma nth_overwrite:
  assumes "k + length bs \<le> length d" "idx < length d"
  shows "overwrite k bs d ! idx =
     (if k \<le> idx \<and> idx < k + length bs then bs ! (idx - k) else d ! idx)"
proof -
  consider "idx < k" | "k \<le> idx" "idx < k + length bs" | "k + length bs \<le> idx"
    by linarith
  then show ?thesis
  proof cases
    case 1
    with assms show ?thesis by (simp add: overwrite_def nth_append)
  next
    case 2
    then have "idx - k < length bs" by linarith
    with 2 assms show ?thesis by (simp add: overwrite_def nth_append)
  next
    case 3
    then have a: "\<not> idx < k" "\<not> idx - k < length bs" by linarith+
    have b: "k + length bs + (idx - k - length bs) = idx" using 3 by linarith
    have "overwrite k bs d ! idx = drop (k + length bs) d ! (idx - k - length bs)"
      using a assms by (simp add: overwrite_def nth_append)
    also have "\<dots> = d ! (k + length bs + (idx - k - length bs))"
      using assms by (intro nth_drop) simp
    finally show ?thesis using b 3 by simp
  qed
qed

lemma overwrite_read_back:
  assumes "k + length bs \<le> length d"
  shows "take (length bs) (drop k (overwrite k bs d)) = bs"
  using assms by (simp add: overwrite_def)

lemma overwrite_disjoint:
  assumes "k + length bs \<le> length d" "k + length bs \<le> m \<or> m + n \<le> k"
  shows "take n (drop m (overwrite k bs d)) = take n (drop m d)"
proof (rule nth_equalityI)
  show "length (take n (drop m (overwrite k bs d))) = length (take n (drop m d))"
    using assms by (simp add: length_overwrite)
next
  fix i assume "i < length (take n (drop m (overwrite k bs d)))"
  then have "i < n \<and> i < length d - m" using assms by (simp add: length_overwrite)
  then have i: "i < n" "m + i < length d" by linarith+
  then have "take n (drop m (overwrite k bs d)) ! i = overwrite k bs d ! (m + i)"
    using assms by (simp add: length_overwrite)
  also have "\<dots> = d ! (m + i)"
    using nth_overwrite[OF assms(1) i(2)] assms(2) i(1) by auto
  also have "\<dots> = take n (drop m d) ! i" using i by simp
  finally show "take n (drop m (overwrite k bs d)) ! i = take n (drop m d) ! i" .
qed

lemma overwrite_inside:
  assumes "m + n \<le> length d" "j < n"
  shows "take n (drop m (overwrite (m + j) [v] d)) = (take n (drop m d))[j := v]"
proof (rule nth_equalityI)
  have le: "m + j + length [v] \<le> length d" using assms by simp
  show "length (take n (drop m (overwrite (m + j) [v] d))) = length ((take n (drop m d))[j := v])"
    using assms le by (simp add: length_overwrite)
  fix i assume "i < length (take n (drop m (overwrite (m + j) [v] d)))"
  then have "i < n \<and> i < length d - m" using assms le by (simp add: length_overwrite)
  then have i: "i < n" "m + i < length d" by linarith+
  then have "take n (drop m (overwrite (m + j) [v] d)) ! i = overwrite (m + j) [v] d ! (m + i)"
    using le by (simp add: length_overwrite)
  also have "\<dots> = (if i = j then v else d ! (m + i))"
    using nth_overwrite[OF le i(2)] by auto
  also have "\<dots> = (take n (drop m d))[j := v] ! i"
    using i assms by (simp add: nth_list_update)
  finally show "take n (drop m (overwrite (m + j) [v] d)) ! i = (take n (drop m d))[j := v] ! i" .
qed

lemma overwrite_same:
  assumes "k + length bs \<le> length d" "take (length bs) (drop k d) = bs"
  shows "overwrite k bs d = d"
proof -
  have "take k d @ (take (length bs) (drop k d) @ drop (length bs) (drop k d)) = d"
    by (simp only: append_take_drop_id)
  then have "take k d @ bs @ drop (length bs + k) d = d"
    by (simp only: assms(2) drop_drop)
  then show ?thesis by (simp add: overwrite_def add.commute)
qed

lemma locate_block:
  assumes "i < POOL_NUM_BLOCKS" "k < POOL_BLOCK_SIZE"
  shows "locate (block_data i + int k) = Some (i, k)"
proof -
  have "block_data i + int k = int (i * BLOCK_STRIDE + k)"
    by (simp add: block_data_def)
  then have n: "nat (block_data i + int k) = i * BLOCK_STRIDE + k"
    by (simp only: nat_int)
  have k: "k < BLOCK_STRIDE" using assms(2) by (simp add: BLOCK_STRIDE_def)
  have "0 \<le> block_data i + int k" by (simp add: block_data_def)
  with n k assms show ?thesis by (simp add: locate_def)
qed

lemma locateD:
  assumes "locate a = Some (i, k)"
  shows "a = block_data i + int k" "i < POOL_NUM_BLOCKS" "k < POOL_BLOCK_SIZE"
proof -
  from assms have a: "0 \<le> a" and i: "i = nat a div BLOCK_STRIDE" and k: "k = nat a mod BLOCK_STRIDE"
    and "nat a div BLOCK_STRIDE < POOL_NUM_BLOCKS" "nat a mod BLOCK_STRIDE < POOL_BLOCK_SIZE"
    by (auto simp: locate_def split: if_splits)
  then show "i < POOL_NUM_BLOCKS" "k < POOL_BLOCK_SIZE" by simp_all
  have "nat a = i * BLOCK_STRIDE + k" using i k by simp
  then have "a = int (i * BLOCK_STRIDE + k)" using a by linarith
  then show "a = block_data i + int k" by (simp add: block_data_def)
qed

section \<open>Lemmas: loads after stores\<close>

lemma wf_poolD:
  assumes "wf_pool q"
  shows "length (blocks q) = POOL_NUM_BLOCKS"
    and "i < POOL_NUM_BLOCKS \<Longrightarrow> length (data (blocks q ! i)) = POOL_BLOCK_SIZE"
  using assms by (simp_all add: wf_pool_def list_all_length)

lemma store_bytes_Some:
  assumes "locate a = Some (i, k)" "k + length bs \<le> POOL_BLOCK_SIZE"
  shows "store_bytes q a bs =
     Inr (q\<lparr>blocks := (blocks q)[i := (blocks q ! i)\<lparr>data := overwrite k bs (data (blocks q ! i))\<rparr>]\<rparr>)"
  using assms by (simp add: store_bytes_def)

lemma store_bytesD:
  assumes "store_bytes q a bs = Inr q'"
  obtains i k where "locate a = Some (i, k)" "k + length bs \<le> POOL_BLOCK_SIZE"
    "q' = q\<lparr>blocks := (blocks q)[i := (blocks q ! i)\<lparr>data := overwrite k bs (data (blocks q ! i))\<rparr>]\<rparr>"
  using assms by (auto simp: store_bytes_def split: option.splits if_splits)

lemma load_bytes_Some:
  assumes "locate b = Some (j, m)" "m + n \<le> POOL_BLOCK_SIZE"
  shows "load_bytes q b n = Inr (take n (drop m (data (blocks q ! j))))"
  using assms by (simp add: load_bytes_def)

lemma load_bytesD:
  assumes "load_bytes q b n = Inr cs"
  obtains j m where "locate b = Some (j, m)" "m + n \<le> POOL_BLOCK_SIZE"
    "cs = take n (drop m (data (blocks q ! j)))"
  using assms by (auto simp: load_bytes_def split: option.splits if_splits)

lemma load_bytes_fault_indep:
  "load_bytes q b n = Inl f \<Longrightarrow> load_bytes q' b n = Inl f"
  by (auto simp: load_bytes_def split: option.splits if_splits)

lemma wf_store:
  assumes "wf_pool q" "store_bytes q a bs = Inr q'"
  shows "wf_pool q'"
proof -
  from assms(2) obtain i k where l: "locate a = Some (i, k)" "k + length bs \<le> POOL_BLOCK_SIZE"
    and q': "q' = q\<lparr>blocks := (blocks q)[i := (blocks q ! i)\<lparr>data := overwrite k bs (data (blocks q ! i))\<rparr>]\<rparr>"
    by (rule store_bytesD)
  from locateD[OF l(1)] have i: "i < POOL_NUM_BLOCKS" by simp
  have "length (overwrite k bs (data (blocks q ! i))) = POOL_BLOCK_SIZE"
    using wf_poolD(2)[OF assms(1) i] l(2) by (simp add: length_overwrite)
  with assms(1) show ?thesis by (simp add: q' wf_pool_def list_all_update)
qed

lemma store_keeps_flags:
  assumes "store_bytes q a bs = Inr q'"
  shows "map in_use (blocks q') = map in_use (blocks q)"
    and "allocated_count q' = allocated_count q" and "peak_usage q' = peak_usage q"
proof -
  from assms obtain i k where
    q': "q' = q\<lparr>blocks := (blocks q)[i := (blocks q ! i)\<lparr>data := overwrite k bs (data (blocks q ! i))\<rparr>]\<rparr>"
    by (rule store_bytesD)
  show "map in_use (blocks q') = map in_use (blocks q)"
    by (cases "i < length (blocks q)")
       (simp_all add: q' map_update list_update_same_conv list_update_beyond)
  show "allocated_count q' = allocated_count q" "peak_usage q' = peak_usage q"
    by (simp_all add: q')
qed

lemma load_after_store:
  assumes "wf_pool q" "store_bytes q a bs = Inr q'"
  shows "load_bytes q' a (length bs) = Inr bs"
proof -
  from assms(2) obtain i k where l: "locate a = Some (i, k)" "k + length bs \<le> POOL_BLOCK_SIZE"
    and q': "q' = q\<lparr>blocks := (blocks q)[i := (blocks q ! i)\<lparr>data := overwrite k bs (data (blocks q ! i))\<rparr>]\<rparr>"
    by (rule store_bytesD)
  from locateD[OF l(1)] have i: "i < POOL_NUM_BLOCKS" by simp
  with assms(1) have len: "i < length (blocks q)" "length (data (blocks q ! i)) = POOL_BLOCK_SIZE"
    by (simp_all add: wf_poolD)
  with l(2) have "take (length bs) (drop k (overwrite k bs (data (blocks q ! i)))) = bs"
    by (intro overwrite_read_back) simp
  with len show ?thesis by (simp add: load_bytes_Some[OF l] q')
qed

lemma load_after_store_disjoint:
  assumes "wf_pool q" "store_bytes q a bs = Inr q'"
    and "a + int (length bs) \<le> b \<or> b + int n \<le> a"
  shows "load_bytes q' b n = load_bytes q b n"
proof (cases "load_bytes q b n")
  case (Inl f)
  then show ?thesis using load_bytes_fault_indep[of q b n f q'] by simp
next
  case (Inr cs)
  then obtain j m where lb: "locate b = Some (j, m)" "m + n \<le> POOL_BLOCK_SIZE"
    by (rule load_bytesD)
  from assms(2) obtain i k where l: "locate a = Some (i, k)" "k + length bs \<le> POOL_BLOCK_SIZE"
    and q': "q' = q\<lparr>blocks := (blocks q)[i := (blocks q ! i)\<lparr>data := overwrite k bs (data (blocks q ! i))\<rparr>]\<rparr>"
    by (rule store_bytesD)
  from locateD[OF l(1)] have i: "i < POOL_NUM_BLOCKS" and a: "a = block_data i + int k" by simp_all
  from locateD[OF lb(1)] have j: "j < POOL_NUM_BLOCKS" and b: "b = block_data j + int m" by simp_all
  from assms(1) i have len: "i < length (blocks q)" "length (data (blocks q ! i)) = POOL_BLOCK_SIZE"
    by (simp_all add: wf_poolD)
  show ?thesis
  proof (cases "j = i")
    case False
    then show ?thesis by (simp add: load_bytes_Some[OF lb] q')
  next
    case True
    with assms(3) a b have "k + length bs \<le> m \<or> m + n \<le> k" by auto
    then have "take n (drop m (overwrite k bs (data (blocks q ! i)))) = take n (drop m (data (blocks q ! i)))"
      using len l(2) by (intro overwrite_disjoint) simp_all
    with True len show ?thesis by (simp add: load_bytes_Some[OF lb] q')
  qed
qed

lemma locate_shift:
  assumes "locate b = Some (j, m)" "m + n \<le> POOL_BLOCK_SIZE" "t < n"
  shows "locate (b + int t) = Some (j, m + t)"
proof -
  from locateD[OF assms(1)] have j: "j < POOL_NUM_BLOCKS" and b: "b = block_data j + int m" by simp_all
  have "locate (block_data j + int (m + t)) = Some (j, m + t)"
    using j assms by (intro locate_block) simp_all
  with b show ?thesis by (simp add: add.assoc)
qed

lemma store_inside:
  assumes "wf_pool q" "load_bytes q b n = Inr cs" "t < n"
  obtains q' where "store_bytes q (b + int t) [v] = Inr q'" "load_bytes q' b n = Inr (cs[t := v])"
proof -
  from assms(2) obtain j m where lb: "locate b = Some (j, m)" "m + n \<le> POOL_BLOCK_SIZE"
    and cs: "cs = take n (drop m (data (blocks q ! j)))"
    by (rule load_bytesD)
  from locateD[OF lb(1)] have j: "j < POOL_NUM_BLOCKS" by simp
  with assms(1) have len: "j < length (blocks q)" "length (data (blocks q ! j)) = POOL_BLOCK_SIZE"
    by (simp_all add: wf_poolD)
  let ?q = "q\<lparr>blocks := (blocks q)[j := (blocks q ! j)\<lparr>data := overwrite (m + t) [v] (data (blocks q ! j))\<rparr>]\<rparr>"
  have ls: "locate (b + int t) = Some (j, m + t)" by (rule locate_shift[OF lb assms(3)])
  have st: "store_bytes q (b + int t) [v] = Inr ?q"
    using lb(2) assms(3) by (intro store_bytes_Some[OF ls]) simp
  have "take n (drop m (overwrite (m + t) [v] (data (blocks q ! j)))) = cs[t := v]"
    unfolding cs using len lb(2) assms(3) by (intro overwrite_inside) simp_all
  with len have "load_bytes ?q b n = Inr (cs[t := v])"
    by (simp add: load_bytes_Some[OF lb])
  with st show ?thesis by (rule that)
qed

lemma store_same:
  assumes "wf_pool q" "load_bytes q a (length bs) = Inr bs"
  shows "store_bytes q a bs = Inr q"
proof -
  from assms(2) obtain j m where lb: "locate a = Some (j, m)" "m + length bs \<le> POOL_BLOCK_SIZE"
    and cs: "bs = take (length bs) (drop m (data (blocks q ! j)))"
    by (rule load_bytesD)
  from locateD[OF lb(1)] have j: "j < POOL_NUM_BLOCKS" by simp
  with assms(1) have len: "j < length (blocks q)" "length (data (blocks q ! j)) = POOL_BLOCK_SIZE"
    by (simp_all add: wf_poolD)
  have "overwrite m bs (data (blocks q ! j)) = data (blocks q ! j)"
    using len lb(2) cs by (intro overwrite_same) simp_all
  then show ?thesis by (simp add: store_bytes_Some[OF lb])
qed

lemma load_bytes_length:
  assumes "wf_pool q" "load_bytes q b n = Inr cs"
  shows "length cs = n"
proof -
  from assms(2) obtain j m where lb: "locate b = Some (j, m)" "m + n \<le> POOL_BLOCK_SIZE"
    and cs: "cs = take n (drop m (data (blocks q ! j)))"
    by (rule load_bytesD)
  from locateD[OF lb(1)] have j: "j < POOL_NUM_BLOCKS" by simp
  with assms(1) have "length (data (blocks q ! j)) = POOL_BLOCK_SIZE" by (simp add: wf_poolD)
  with lb(2) show ?thesis by (simp add: cs)
qed

section \<open>Lemmas: the integrity check under stores\<close>

lemma load_u32_after_store:
  assumes "wf_pool q" "store_u32 bo q a w = Inr q'"
  shows "load_u32 bo q' a = Inr w"
proof -
  from assms(2) have "store_bytes q a (u32_bytes bo w) = Inr q'" by (simp add: store_u32_def)
  from load_after_store[OF assms(1) this]
  show ?thesis by (simp add: load_u32_def length_u32_bytes bytes_u32_bytes)
qed

lemma load_u32_after_store_disjoint:
  assumes "wf_pool q" "store_bytes q a bs = Inr q'"
    and "a + int (length bs) \<le> b \<or> b + 4 \<le> a"
  shows "load_u32 bo q' b = load_u32 bo q b"
  using load_after_store_disjoint[OF assms(1,2), of b 4] assms(3)
  by (simp add: load_u32_def)

lemma load_u32_guardD:
  assumes "wf_pool q" "load_u32 bo q b = Inr GUARD_PATTERN"
  shows "load_bytes q b 4 = Inr (u32_bytes bo GUARD_PATTERN)"
proof -
  from assms(2) obtain cs where cs: "load_bytes q b 4 = Inr cs" "bytes_u32 bo cs = GUARD_PATTERN"
    by (auto simp: load_u32_def split: sum.splits)
  from load_bytes_length[OF assms(1) cs(1)] have "length cs = 4" .
  then have "cs = u32_bytes bo GUARD_PATTERN"
    using cs(2) by (intro bytes_u32_inj[of _ _ bo]) (simp_all add: length_u32_bytes bytes_u32_bytes)
  with cs(1) show ?thesis by simp
qed

lemma ptr_add_small:
  assumes "0 \<le> a + k" "a + k < 2 ^ 64"
  shows "ptr_add a k = a + k"
  using assms by (simp add: ptr_add_def)

lemma ptr_add_nonneg: "0 \<le> ptr_add a k"
  by (simp add: ptr_add_def)

lemma ptr_add_shift:
  assumes "0 \<le> t" "ptr_add h j + t < 2 ^ 64"
  shows "ptr_add h (j + t) = ptr_add h j + t"
proof -
  have "ptr_add h (j + t) = ((h + j) mod 2 ^ 64 + t) mod 2 ^ 64"
    unfolding ptr_add_def by (simp add: mod_add_left_eq add.assoc)
  also have "\<dots> = ptr_add h j + t"
    using assms ptr_add_nonneg[of h j] unfolding ptr_add_def by simp
  finally show ?thesis .
qed

lemma locate_bound:
  assumes "locate a = Some (i, k)"
  shows "0 \<le> a" "a < 2080"
proof -
  from locateD[OF assms] have "a = block_data i + int k" "i < POOL_NUM_BLOCKS" "k < POOL_BLOCK_SIZE"
    by simp_all
  then have "a = int (i * 65 + k)" "i < 32" "k < 64"
    by (simp_all add: block_data_def BLOCK_STRIDE_def POOL_BLOCK_SIZE_def POOL_NUM_BLOCKS_def)
  then show "0 \<le> a" "a < 2080" by simp_all
qed

lemma load_u32_bound:
  assumes "load_u32 bo q b = Inr w"
  shows "0 \<le> b" "b < 2080"
proof -
  from assms obtain cs where "load_bytes q b 4 = Inr cs"
    by (auto simp: load_u32_def split: sum.splits)
  then obtain j m where "locate b = Some (j, m)" by (rule load_bytesD)
  from locate_bound[OF this] show "0 \<le> b" "b < 2080" by simp_all
qed

lemma load_u32_stays_defined:
  assumes "load_u32 bo q b = Inr w"
  shows "\<exists>w'. load_u32 bo q' b = Inr w'"
proof (cases "load_bytes q' b 4")
  case (Inl f)
  from load_bytes_fault_indep[OF this, of q] assms show ?thesis
    by (simp add: load_u32_def)
next
  case (Inr cs)
  then show ?thesis by (simp add: load_u32_def)
qed

lemma check_True_iff:
  "check_buffer_integrity bo ptr sz q = Inr True \<longleftrightarrow>
     (\<exists>p. ptr = Addr p \<and> sz \<noteq> 0 \<and> load_u32 bo q (ptr_add p (- 4)) = Inr GUARD_PATTERN \<and>
          load_u32 bo q (ptr_add p (uint sz)) = Inr GUARD_PATTERN)"
  by (auto simp: check_buffer_integrity_def split: ptr.splits sum.splits)

lemma check_False_if:
  assumes "sz \<noteq> 0" "load_u32 bo q (ptr_add h (- 4)) = Inr w1"
    "load_u32 bo q (ptr_add h (uint sz)) = Inr w2" "w1 \<noteq> GUARD_PATTERN \<or> w2 \<noteq> GUARD_PATTERN"
  shows "check_buffer_integrity bo (Addr h) sz q = Inr False"
  using assms by (auto simp: check_buffer_integrity_def)

lemma check_preserved:
  assumes "wf_pool q" "check_buffer_integrity bo (Addr h) sz q = Inr True"
    and "store_bytes q a bs = Inr q'"
    and "a + int (length bs) \<le> ptr_add h (- 4) \<or> ptr_add h (- 4) + 4 \<le> a"
    and "a + int (length bs) \<le> ptr_add h (uint sz) \<or> ptr_add h (uint sz) + 4 \<le> a"
  shows "check_buffer_integrity bo (Addr h) sz q' = Inr True"
proof -
  from assms(2) have sz: "sz \<noteq> 0" and g: "load_u32 bo q (ptr_add h (- 4)) = Inr GUARD_PATTERN"
    "load_u32 bo q (ptr_add h (uint sz)) = Inr GUARD_PATTERN"
    by (simp_all add: check_True_iff)
  have "load_u32 bo q' (ptr_add h (- 4)) = load_u32 bo q (ptr_add h (- 4))"
    using assms(4) by (intro load_u32_after_store_disjoint[OF assms(1,3)]) auto
  moreover have "load_u32 bo q' (ptr_add h (uint sz)) = load_u32 bo q (ptr_add h (uint sz))"
    using assms(5) by (intro load_u32_after_store_disjoint[OF assms(1,3)]) auto
  ultimately show ?thesis using sz g by (simp add: check_True_iff)
qed

lemma marker_changed:
  assumes "wf_pool q" "load_u32 bo q b = Inr GUARD_PATTERN" "t < 4" "v \<noteq> guard_byte bo t"
  obtains q' where "store_bytes q (b + int t) [v] = Inr q'"
    "\<exists>w. load_u32 bo q' b = Inr w \<and> w \<noteq> GUARD_PATTERN"
proof -
  let ?g = "u32_bytes bo GUARD_PATTERN"
  from load_u32_guardD[OF assms(1,2)] have lb: "load_bytes q b 4 = Inr ?g" .
  from store_inside[OF assms(1) lb assms(3), of v] obtain q'
    where q': "store_bytes q (b + int t) [v] = Inr q'" "load_bytes q' b 4 = Inr (?g[t := v])"
    by blast
  have "?g[t := v] ! t \<noteq> ?g ! t"
    using assms(3,4) by (simp add: length_u32_bytes guard_byte_def)
  then have ne: "?g[t := v] \<noteq> ?g" by auto
  have "bytes_u32 bo (?g[t := v]) \<noteq> GUARD_PATTERN"
  proof
    assume "bytes_u32 bo (?g[t := v]) = GUARD_PATTERN"
    then have "bytes_u32 bo (?g[t := v]) = bytes_u32 bo ?g" by (simp add: bytes_u32_bytes)
    then have "?g[t := v] = ?g" by (intro bytes_u32_inj[of _ _ bo]) (simp_all add: length_u32_bytes)
    with ne show False by simp
  qed
  with q'(2) have "\<exists>w. load_u32 bo q' b = Inr w \<and> w \<noteq> GUARD_PATTERN"
    by (simp add: load_u32_def)
  with q'(1) show ?thesis by (rule that)
qed

lemma check_detects_start:
  assumes "wf_pool q" "check_buffer_integrity bo (Addr h) sz q = Inr True"
    and "- 4 \<le> k" "k < 0" "v \<noteq> guard_byte bo (nat (k + 4))"
  obtains q' where "poke (Addr h) k v q = Inr q'"
    "check_buffer_integrity bo (Addr h) sz q' = Inr False"
proof -
  from assms(2) have sz: "sz \<noteq> 0" and g: "load_u32 bo q (ptr_add h (- 4)) = Inr GUARD_PATTERN"
    by (simp_all add: check_True_iff)
  have t: "nat (k + 4) < 4" using assms(3,4) by simp
  from marker_changed[OF assms(1) g t assms(5)] obtain q' w
    where q': "store_bytes q (ptr_add h (- 4) + int (nat (k + 4))) [v] = Inr q'"
      "load_u32 bo q' (ptr_add h (- 4)) = Inr w" "w \<noteq> GUARD_PATTERN"
    by blast
  have "ptr_add h (- 4) + (k + 4) < 2 ^ 64"
    using load_u32_bound(2)[OF g] assms(4) by simp
  with assms(3) have "ptr_add h (- 4 + (k + 4)) = ptr_add h (- 4) + (k + 4)"
    by (intro ptr_add_shift) simp_all
  then have "ptr_add h (- 4) + int (nat (k + 4)) = ptr_add h k" using assms(3) by simp
  with q'(1) have "poke (Addr h) k v q = Inr q'" by (simp add: poke_def)
  moreover have "check_buffer_integrity bo (Addr h) sz q' = Inr False"
    using sz q'(2,3) by (simp add: check_buffer_integrity_def)
  ultimately show ?thesis by (rule that)
qed

lemma check_detects_end:
  assumes "wf_pool q" "check_buffer_integrity bo (Addr h) sz q = Inr True"
    and "uint sz \<le> k" "k < uint sz + 4" "v \<noteq> guard_byte bo (nat (k - uint sz))"
  obtains q' where "poke (Addr h) k v q = Inr q'"
    "check_buffer_integrity bo (Addr h) sz q' = Inr False"
proof -
  from assms(2) have sz: "sz \<noteq> 0" and g: "load_u32 bo q (ptr_add h (- 4)) = Inr GUARD_PATTERN"
    "load_u32 bo q (ptr_add h (uint sz)) = Inr GUARD_PATTERN"
    by (simp_all add: check_True_iff)
  have t: "nat (k - uint sz) < 4" using assms(3,4) by simp
  from marker_changed[OF assms(1) g(2) t assms(5)] obtain q' w
    where q': "store_bytes q (ptr_add h (uint sz) + int (nat (k - uint sz))) [v] = Inr q'"
      "load_u32 bo q' (ptr_add h (uint sz)) = Inr w" "w \<noteq> GUARD_PATTERN"
    by blast
  have "ptr_add h (uint sz) + (k - uint sz) < 2 ^ 64"
    using load_u32_bound(2)[OF g(2)] assms(4) by simp
  with assms(3) have "ptr_add h (uint sz + (k - uint sz)) = ptr_add h (uint sz) + (k - uint sz)"
    by (intro ptr_add_shift) simp_all
  then have "ptr_add h (uint sz) + int (nat (k - uint sz)) = ptr_add h k" using assms(3) by simp
  with q'(1) have p: "poke (Addr h) k v q = Inr q'" by (simp add: poke_def)
  from load_u32_stays_defined[OF g(1), of q'] obtain w1
    where "load_u32 bo q' (ptr_add h (- 4)) = Inr w1" by blast
  from check_False_if[OF sz this q'(2)] q'(3)
  have "check_buffer_integrity bo (Addr h) sz q' = Inr False" by simp
  with p show ?thesis by (rule that)
qed

section \<open>Lemmas: creating a guarded buffer\<close>

lemma total_size_small:
  assumes "unat sz + 8 < 2 ^ 64"
  shows "unat (4 + sz + 4 :: size_t) = unat sz + 8"
proof -
  have e: "4 + sz + 4 = sz + 8" by simp
  have "unat sz + unat (8 :: size_t) < 2 ^ LENGTH(64)" using assms by simp
  then have "unat (sz + 8) = unat sz + unat (8 :: size_t)" by (simp only: unat_add_lem)
  then have "unat (sz + 8) = unat sz + 8" by simp
  then show ?thesis unfolding e .
qed

lemma valid_total_size:
  assumes "unat sz + 8 < 2 ^ 64"
  shows "(4 + sz + 4 = 0 \<or> 4 + sz + 4 > (of_nat POOL_BLOCK_SIZE :: size_t)) \<longleftrightarrow> 56 < unat sz"
proof -
  have t: "unat (4 + sz + 4) = unat sz + 8" by (rule total_size_small[OF assms])
  then have "0 < unat (4 + sz + 4)" by simp
  then have nz: "4 + sz + 4 \<noteq> 0" using unat_gt_0[of "4 + sz + 4"] by blast
  have "4 + sz + 4 > (of_nat POOL_BLOCK_SIZE :: size_t) \<longleftrightarrow> 64 < unat sz + 8"
    unfolding valid_size_iff t by (simp add: POOL_BLOCK_SIZE_def)
  with nz show ?thesis by auto
qed

lemma create_zero: "create_guarded_buffer bo 0 pool = (Inr NULL, pool)"
  by (simp add: create_guarded_buffer_def)

lemma create_alloc_failed:
  assumes "sz \<noteq> 0" "pool_alloc (4 + sz + 4) pool = (ex, pool1)" "alloc_value ex = NULL"
  shows "create_guarded_buffer bo sz pool = (Inr NULL, pool1)"
  using assms by (simp add: create_guarded_buffer_def)

lemma block_data_bound:
  assumes "k < POOL_NUM_BLOCKS"
  shows "0 \<le> block_data k" "block_data k \<le> 2015"
  using assms by (simp_all add: block_data_def BLOCK_STRIDE_def POOL_BLOCK_SIZE_def POOL_NUM_BLOCKS_def)

lemma payload_addresses:
  assumes "k < POOL_NUM_BLOCKS" "- 4 \<le> j" "j < 2 ^ 63"
  shows "ptr_add (block_data k + 4) j = block_data k + 4 + j"
  using block_data_bound[OF assms(1)] assms(2,3) by (intro ptr_add_small) simp_all

lemma end_marker_address:
  assumes "k < POOL_NUM_BLOCKS" "unat sz \<le> 56"
  shows "ptr_add (block_data k + 4) (uint sz) = block_data k + 4 + uint sz"
proof -
  have "uint sz = int (unat sz)" by (rule uint_nat)
  with assms(2) have "uint sz \<le> 56" by linarith
  moreover have "(56 :: int) < 2 ^ 63" by simp
  ultimately have "uint sz < 2 ^ 63" by (rule le_less_trans)
  moreover have "- 4 \<le> uint sz" using uint_nonnegative[of sz] by linarith
  ultimately show ?thesis by (intro payload_addresses[OF assms(1)])
qed

lemma create_alloc_ok:
  assumes "sz \<noteq> 0" "pool_alloc (4 + sz + 4) pool = (AllocOk k, pool1)" "k < POOL_NUM_BLOCKS"
  shows "create_guarded_buffer bo sz pool =
     (case store_u32 bo pool1 (block_data k) GUARD_PATTERN of
        Inl f \<Rightarrow> (Inl f, pool1)
      | Inr pool2 \<Rightarrow>
          (case store_u32 bo pool2 (ptr_add (block_data k + 4) (uint sz)) GUARD_PATTERN of
             Inl f \<Rightarrow> (Inl f, pool2)
           | Inr pool3 \<Rightarrow> (Inr (Addr (block_data k + 4)), pool3)))"
proof -
  have "ptr_add (block_data k) 4 = block_data k + 4"
    using block_data_bound[OF assms(3)] by (intro ptr_add_small) simp_all
  with assms(1,2) show ?thesis
    by (cases "store_u32 bo pool1 (block_data k) GUARD_PATTERN")
       (simp_all add: create_guarded_buffer_def Let_def)
qed

lemma create_successD:
  assumes "create_guarded_buffer bo sz pool = (Inr (Addr h), pool')"
  obtains k pool2 where "k < POOL_NUM_BLOCKS" "\<not> in_use (blocks pool ! k)"
    "h = block_data k + 4" "sz \<noteq> 0"
    "\<not> (4 + sz + 4 = 0 \<or> 4 + sz + 4 > (of_nat POOL_BLOCK_SIZE :: size_t))"
    "store_u32 bo (claim_block k pool) (block_data k) GUARD_PATTERN = Inr pool2"
    "store_u32 bo pool2 (ptr_add (block_data k + 4) (uint sz)) GUARD_PATTERN = Inr pool'"
proof -
  have sz: "sz \<noteq> 0"
  proof
    assume "sz = 0"
    with assms create_zero[of bo pool] show False by simp
  qed
  show ?thesis
  proof (rule pool_alloc_cases[of "4 + sz + 4" pool])
    assume "pool_alloc (4 + sz + 4) pool = (AllocInvalidSize, pool)"
    from create_alloc_failed[OF sz this, of bo] assms show ?thesis by simp
  next
    assume "pool_alloc (4 + sz + 4) pool = (AllocExhausted, pool)"
    from create_alloc_failed[OF sz this, of bo] assms show ?thesis by simp
  next
    fix k
    assume a: "pool_alloc (4 + sz + 4) pool = (AllocOk k, claim_block k pool)"
      and k: "k < POOL_NUM_BLOCKS" "\<not> in_use (blocks pool ! k)"
    have valid: "\<not> (4 + sz + 4 = 0 \<or> 4 + sz + 4 > (of_nat POOL_BLOCK_SIZE :: size_t))"
    proof
      assume "4 + sz + 4 = 0 \<or> 4 + sz + 4 > (of_nat POOL_BLOCK_SIZE :: size_t)"
      then have "pool_alloc (4 + sz + 4) pool = (AllocInvalidSize, pool)"
        unfolding pool_alloc_def by (rule if_P)
      with a show False by simp
    qed
    have eq: "(case store_u32 bo (claim_block k pool) (block_data k) GUARD_PATTERN of
        Inl f \<Rightarrow> (Inl f, claim_block k pool)
      | Inr pool2 \<Rightarrow>
          (case store_u32 bo pool2 (ptr_add (block_data k + 4) (uint sz)) GUARD_PATTERN of
             Inl f \<Rightarrow> (Inl f, pool2)
           | Inr pool3 \<Rightarrow> (Inr (Addr (block_data k + 4)), pool3))) = (Inr (Addr h), pool')"
      by (rule trans[OF create_alloc_ok[OF sz a k(1), of bo, symmetric] assms])
    obtain pool2 where
      s1: "store_u32 bo (claim_block k pool) (block_data k) GUARD_PATTERN = Inr pool2"
    proof (cases "store_u32 bo (claim_block k pool) (block_data k) GUARD_PATTERN")
      case (Inl f)
      from eq show ?thesis unfolding Inl by simp
    next
      case (Inr p2)
      then show ?thesis by (rule that)
    qed
    have eq2: "(case store_u32 bo pool2 (ptr_add (block_data k + 4) (uint sz)) GUARD_PATTERN of
             Inl f \<Rightarrow> (Inl f, pool2)
           | Inr pool3 \<Rightarrow> (Inr (Addr (block_data k + 4)), pool3)) = (Inr (Addr h), pool')"
      using eq unfolding s1 by simp
    have s2h: "store_u32 bo pool2 (ptr_add (block_data k + 4) (uint sz)) GUARD_PATTERN = Inr pool' \<and>
        h = block_data k + 4"
    proof (cases "store_u32 bo pool2 (ptr_add (block_data k + 4) (uint sz)) GUARD_PATTERN")
      case (Inl f)
      from eq2 show ?thesis unfolding Inl by simp
    next
      case (Inr p3)
      from eq2 have "p3 = pool'" "h = block_data k + 4" unfolding Inr by simp_all
      with Inr show ?thesis by simp
    qed
    then have s2: "store_u32 bo pool2 (ptr_add (block_data k + 4) (uint sz)) GUARD_PATTERN = Inr pool'"
      and h: "h = block_data k + 4" by blast+
    from k h sz valid s1 s2 show ?thesis by (rule that[of k pool2])
  qed
qed

text \<open>
  When \<^verbatim>\<open>4 + size + 4\<close> does not wrap, a successful creation has \<open>size \<le> 56\<close> and the end
  marker lies at \<open>size\<close> bytes after the payload pointer, inside the block.
\<close>

lemma create_nowrapD:
  assumes "create_guarded_buffer bo sz pool = (Inr (Addr h), pool')" "unat sz + 8 < 2 ^ 64"
  obtains k pool2 where "k < POOL_NUM_BLOCKS" "\<not> in_use (blocks pool ! k)"
    "h = block_data k + 4" "sz \<noteq> 0" "unat sz \<le> 56"
    "store_u32 bo (claim_block k pool) (block_data k) GUARD_PATTERN = Inr pool2"
    "store_u32 bo pool2 (block_data k + 4 + uint sz) GUARD_PATTERN = Inr pool'"
proof -
  from assms(1) obtain k pool2 where k: "k < POOL_NUM_BLOCKS" "\<not> in_use (blocks pool ! k)"
    and h: "h = block_data k + 4" and sz: "sz \<noteq> 0"
    and valid: "\<not> (4 + sz + 4 = 0 \<or> 4 + sz + 4 > (of_nat POOL_BLOCK_SIZE :: size_t))"
    and s1: "store_u32 bo (claim_block k pool) (block_data k) GUARD_PATTERN = Inr pool2"
    and s2: "store_u32 bo pool2 (ptr_add (block_data k + 4) (uint sz)) GUARD_PATTERN = Inr pool'"
    by (rule create_successD)
  from valid_total_size[OF assms(2)] valid have "\<not> 56 < unat sz" by blast
  then have le: "unat sz \<le> 56" by linarith
  from s2 have s2': "store_u32 bo pool2 (block_data k + 4 + uint sz) GUARD_PATTERN = Inr pool'"
    unfolding end_marker_address[OF k(1) le] .
  from k h sz le s1 s2' show ?thesis by (rule that[of k pool2])
qed

lemma marker_addresses:
  assumes "h = block_data k + 4" "k < POOL_NUM_BLOCKS" "unat sz \<le> 56"
  shows "ptr_add h (- 4) = h - 4" "ptr_add h (uint sz) = h + uint sz"
proof -
  show "ptr_add h (- 4) = h - 4"
    unfolding assms(1) using payload_addresses[OF assms(2), of "- 4"] by simp
  show "ptr_add h (uint sz) = h + uint sz"
    unfolding assms(1) by (rule end_marker_address[OF assms(2,3)])
qed

lemma create_intact:
  assumes "wf_pool pool" "create_guarded_buffer bo sz pool = (Inr (Addr h), pool')"
    "unat sz + 8 < 2 ^ 64"
  shows "wf_pool pool'" and "check_buffer_integrity bo (Addr h) sz pool' = Inr True"
proof -
  from assms(2,3) obtain k pool2 where k: "k < POOL_NUM_BLOCKS"
    and h: "h = block_data k + 4" and sz: "sz \<noteq> 0" and le: "unat sz \<le> 56"
    and s1: "store_u32 bo (claim_block k pool) (block_data k) GUARD_PATTERN = Inr pool2"
    and s2: "store_u32 bo pool2 (block_data k + 4 + uint sz) GUARD_PATTERN = Inr pool'"
    by (rule create_nowrapD)
  note m = marker_addresses[OF h k le]
  have wf1: "wf_pool (claim_block k pool)" by (rule wf_claim_block[OF assms(1)])
  from s1 have wf2: "wf_pool pool2" unfolding store_u32_def by (rule wf_store[OF wf1])
  from s2 show wf3: "wf_pool pool'" unfolding store_u32_def by (rule wf_store[OF wf2])
  have "load_u32 bo pool2 (block_data k) = Inr GUARD_PATTERN"
    by (rule load_u32_after_store[OF wf1 s1])
  moreover have "load_u32 bo pool' (block_data k) = load_u32 bo pool2 (block_data k)"
    using s2 unfolding store_u32_def
    by (rule load_u32_after_store_disjoint[OF wf2]) simp
  ultimately have "load_u32 bo pool' (h - 4) = Inr GUARD_PATTERN" by (simp add: h)
  moreover have "load_u32 bo pool' (h + uint sz) = Inr GUARD_PATTERN"
    using load_u32_after_store[OF wf2 s2] by (simp add: h)
  ultimately show "check_buffer_integrity bo (Addr h) sz pool' = Inr True"
    using sz by (simp add: check_True_iff m)
qed

lemma inbounds_poke:
  assumes "wf_pool q" "check_buffer_integrity bo (Addr h) sz q = Inr True"
    and "h = block_data k + 4" "k < POOL_NUM_BLOCKS" "unat sz \<le> 56"
    and "0 \<le> j" "j < uint sz"
  obtains q' where "poke (Addr h) j v q = Inr q'" "wf_pool q'"
    "check_buffer_integrity bo (Addr h) sz q' = Inr True"
proof -
  note m = marker_addresses[OF assms(3,4,5)]
  have u: "uint sz = int (unat sz)" by (rule uint_nat)
  have j: "nat j < unat sz" using assms(6,7) u by linarith
  have "j < 56" using assms(7) u assms(5) by linarith
  moreover have "(56 :: int) < 2 ^ 63" by simp
  ultimately have "j < 2 ^ 63" by (rule less_trans)
  moreover have "- 4 \<le> j" using assms(6) by linarith
  ultimately have pa: "ptr_add h j = h + j"
    unfolding assms(3) by (intro payload_addresses[OF assms(4)])
  have "h + j = block_data k + int (4 + nat j)" using assms(3,6) by simp
  moreover have "locate (block_data k + int (4 + nat j)) = Some (k, 4 + nat j)"
    using assms(4,5) j by (intro locate_block) (simp_all add: POOL_BLOCK_SIZE_def)
  ultimately have l: "locate (h + j) = Some (k, 4 + nat j)" by simp
  have "4 + nat j + length [v] \<le> POOL_BLOCK_SIZE"
    using assms(5) j by (simp add: POOL_BLOCK_SIZE_def)
  from store_bytes_Some[OF l this, of q] obtain q' where st: "store_bytes q (h + j) [v] = Inr q'"
    by blast
  then have p: "poke (Addr h) j v q = Inr q'" by (simp add: poke_def pa)
  have wf: "wf_pool q'" by (rule wf_store[OF assms(1) st])
  have "check_buffer_integrity bo (Addr h) sz q' = Inr True"
    using assms(6,7) by (intro check_preserved[OF assms(1,2) st]) (simp_all add: m)
  with p wf show ?thesis by (rule that)
qed

lemma inbounds_writes:
  assumes "h = block_data k + 4" "k < POOL_NUM_BLOCKS" "unat sz \<le> 56"
  shows "wf_pool q \<Longrightarrow> check_buffer_integrity bo (Addr h) sz q = Inr True \<Longrightarrow>
     list_all (\<lambda>(j, v). 0 \<le> j \<and> j < uint sz) ws \<Longrightarrow>
     \<exists>q'. write_bytes (Addr h) ws q = Inr q' \<and> wf_pool q' \<and>
          check_buffer_integrity bo (Addr h) sz q' = Inr True"
proof (induction ws arbitrary: q)
  case Nil
  then show ?case by simp
next
  case (Cons w ws)
  obtain j v where w: "w = (j, v)" by (cases w)
  with Cons.prems(3) have j: "0 \<le> j" "j < uint sz"
    and rest: "list_all (\<lambda>(j, v). 0 \<le> j \<and> j < uint sz) ws" by simp_all
  from inbounds_poke[OF Cons.prems(1,2) assms j, of v] obtain q1
    where q1: "poke (Addr h) j v q = Inr q1" "wf_pool q1"
      "check_buffer_integrity bo (Addr h) sz q1 = Inr True"
    by blast
  from Cons.IH[OF q1(2,3) rest] q1(1) w show ?case by simp
qed

lemma create_succeeds:
  assumes "sz \<noteq> 0" "unat sz \<le> 56" "k < POOL_NUM_BLOCKS" "\<not> in_use (blocks pool ! k)"
    "\<forall>j<k. in_use (blocks pool ! j)"
  shows "\<exists>pool'. create_guarded_buffer bo sz pool = (Inr (Addr (block_data k + 4)), pool')"
proof -
  have "unat sz + 8 < 2 ^ 64" using assms(2) by simp
  from valid_total_size[OF this] assms(2)
  have "\<not> (4 + sz + 4 = 0 \<or> 4 + sz + 4 > (of_nat POOL_BLOCK_SIZE :: size_t))" by simp
  then have "pool_alloc (4 + sz + 4) pool = alloc_scan 0 pool"
    unfolding pool_alloc_def by (rule if_not_P)
  with alloc_scan_first[OF assms(3,4,5)]
  have a: "pool_alloc (4 + sz + 4) pool = (AllocOk k, claim_block k pool)" by simp
  have l1: "locate (block_data k + int 0) = Some (k, 0)"
    using assms(3) by (intro locate_block) (simp_all add: POOL_BLOCK_SIZE_def)
  obtain pool2 where s1: "store_u32 bo (claim_block k pool) (block_data k) GUARD_PATTERN = Inr pool2"
    using store_bytes_Some[of "block_data k" k 0 "u32_bytes bo GUARD_PATTERN" "claim_block k pool"] l1
    by (simp add: store_u32_def length_u32_bytes POOL_BLOCK_SIZE_def)
  have l2: "locate (block_data k + int (4 + unat sz)) = Some (k, 4 + unat sz)"
    using assms(2,3) by (intro locate_block) (simp_all add: POOL_BLOCK_SIZE_def)
  have adr: "block_data k + 4 + uint sz = block_data k + int (4 + unat sz)"
    by simp
  obtain pool3 where s2: "store_u32 bo pool2 (block_data k + 4 + uint sz) GUARD_PATTERN = Inr pool3"
    using store_bytes_Some[of "block_data k + int (4 + unat sz)" k "4 + unat sz"
        "u32_bytes bo GUARD_PATTERN" pool2] l2 assms(2) adr
    by (simp add: store_u32_def length_u32_bytes POOL_BLOCK_SIZE_def)
  from create_alloc_ok[OF assms(1) a assms(3), of bo] s1 s2 show ?thesis
    by (simp add: end_marker_address[OF assms(3,2)])
qed

lemma create_too_large:
  assumes "56 < unat sz" "unat sz + 8 < 2 ^ 64"
  shows "create_guarded_buffer bo sz pool = (Inr NULL, pool)"
proof -
  from assms(1) have sz: "sz \<noteq> 0" using unat_gt_0[of sz] by simp
  from valid_total_size[OF assms(2)] assms(1)
  have "4 + sz + 4 = 0 \<or> 4 + sz + 4 > (of_nat POOL_BLOCK_SIZE :: size_t)" by blast
  then have "pool_alloc (4 + sz + 4) pool = (AllocInvalidSize, pool)"
    unfolding pool_alloc_def by (rule if_P)
  from create_alloc_failed[OF sz this, of bo] show ?thesis by simp
qed

lemma block_data_inj: "block_data i = block_data k \<Longrightarrow> i = k"
  by (simp add: block_data_def BLOCK_STRIDE_def POOL_BLOCK_SIZE_def)

lemma create_state:
  assumes "wf_pool pool" "create_guarded_buffer bo sz pool = (Inr (Addr h), pool')"
  obtains k where "k < POOL_NUM_BLOCKS" "h = block_data k + 4" "\<not> in_use (blocks pool ! k)"
    "in_use (blocks pool' ! k)" "allocated_count pool' = allocated_count pool + 1"
proof -
  from assms(2) obtain k pool2 where k: "k < POOL_NUM_BLOCKS" "\<not> in_use (blocks pool ! k)"
    and h: "h = block_data k + 4"
    and s1: "store_u32 bo (claim_block k pool) (block_data k) GUARD_PATTERN = Inr pool2"
    and s2: "store_u32 bo pool2 (ptr_add (block_data k + 4) (uint sz)) GUARD_PATTERN = Inr pool'"
    by (rule create_successD)
  note f1 = store_keeps_flags[OF s1[unfolded store_u32_def]]
  note f2 = store_keeps_flags[OF s2[unfolded store_u32_def]]
  have m: "map in_use (blocks pool') = map in_use (blocks (claim_block k pool))"
    using f1(1) f2(1) by simp
  have c: "allocated_count pool' = allocated_count (claim_block k pool)"
    using f1(2) f2(2) by simp
  have len: "k < length (blocks pool)" using assms(1) k(1) by (simp add: wf_pool_def)
  then have len1: "k < length (blocks (claim_block k pool))" by (simp add: claim_block_def)
  have "length (map in_use (blocks pool')) = length (map in_use (blocks (claim_block k pool)))"
    by (simp only: m)
  with len1 have len2: "k < length (blocks pool')" by simp
  have "in_use (blocks pool' ! k) = map in_use (blocks pool') ! k"
    using len2 by simp
  also have "\<dots> = map in_use (blocks (claim_block k pool)) ! k" by (simp only: m)
  also have "\<dots> = in_use (blocks (claim_block k pool) ! k)" using len1 by simp
  finally have "in_use (blocks pool' ! k)" using claimed_in_use[OF len] by simp
  moreover have "allocated_count pool' = allocated_count pool + 1"
    using c by (simp add: claim_block_def)
  ultimately show ?thesis using k h by (intro that[of k])
qed

lemma alloc_initial_any:
  assumes "sz \<noteq> 0" "unat sz \<le> POOL_BLOCK_SIZE"
  shows "pool_alloc sz g_memory_pool = (AllocOk 0, claim_block 0 g_memory_pool)"
proof -
  have "\<not> in_use (blocks g_memory_pool ! 0)"
    by (simp add: initial_block cleared_def POOL_NUM_BLOCKS_def)
  then have "alloc_scan 0 g_memory_pool = (AllocOk 0, claim_block 0 g_memory_pool)"
    by (intro alloc_scan_step) (simp_all add: POOL_NUM_BLOCKS_def)
  moreover have "\<not> (sz = 0 \<or> sz > (of_nat POOL_BLOCK_SIZE :: size_t))"
    using assms unfolding valid_size_iff by simp
  ultimately show ?thesis unfolding pool_alloc_def by simp
qed

lemma store_block_start:
  assumes "k < POOL_NUM_BLOCKS"
  obtains q' where "store_u32 bo q (block_data k) w = Inr q'"
proof -
  have "locate (block_data k + int 0) = Some (k, 0)"
    using assms by (intro locate_block) (simp_all add: POOL_BLOCK_SIZE_def)
  then have l: "locate (block_data k) = Some (k, 0)" by simp
  have "0 + length (u32_bytes bo w) \<le> POOL_BLOCK_SIZE"
    by (simp add: length_u32_bytes POOL_BLOCK_SIZE_def)
  from store_bytes_Some[OF l this, of q] show ?thesis
    using that by (simp add: store_u32_def)
qed

section \<open>Guarded buffers: integrity after creation and after writes\<close>

lemma create_initial:
  assumes "sz \<noteq> 0" "unat sz \<le> 56"
  shows "create_guarded_buffer bo sz g_memory_pool
     = (Inr (Addr 4), snd (create_guarded_buffer bo sz g_memory_pool))"
proof -
  have "\<not> in_use (blocks g_memory_pool ! 0)"
    by (simp add: initial_block cleared_def POOL_NUM_BLOCKS_def)
  from create_succeeds[OF assms _ this, of bo]
  obtain pool' where "create_guarded_buffer bo sz g_memory_pool = (Inr (Addr (block_data 0 + 4)), pool')"
    by (auto simp: POOL_NUM_BLOCKS_def)
  then show ?thesis by (simp add: block_data_def)
qed

lemma load_bytes_prefix:
  assumes "load_bytes q b n = Inr cs" "m \<le> n"
  shows "load_bytes q b m = Inr (take m cs)"
proof -
  from assms(1) obtain j k where lb: "locate b = Some (j, k)" "k + n \<le> POOL_BLOCK_SIZE"
    and cs: "cs = take n (drop k (data (blocks q ! j)))"
    by (rule load_bytesD)
  have "k + m \<le> POOL_BLOCK_SIZE" using lb(2) assms(2) by simp
  from load_bytes_Some[OF lb(1) this, of q] assms(2) show ?thesis
    by (simp add: cs min_def)
qed

lemma guard_byte_values:
  "guard_byte LittleEndian 0 = 0xEF" "guard_byte LittleEndian 1 = 0xBE"
  "guard_byte LittleEndian 2 = 0xAD" "guard_byte LittleEndian 3 = 0xDE"
  "guard_byte BigEndian 0 = 0xDE" "guard_byte BigEndian 1 = 0xAD"
  "guard_byte BigEndian 2 = 0xBE" "guard_byte BigEndian 3 = 0xEF"
  "guard_byte LittleEndian (Suc 0) = 0xBE" "guard_byte BigEndian (Suc 0) = 0xAD"
  by (simp_all add: guard_byte_def guard_bytes_le guard_bytes_be)

lemma rewrite_marker_byte:
  assumes "wf_pool q" "check_buffer_integrity bo (Addr h) sz q = Inr True"
  shows "poke (Addr h) (uint sz) (guard_byte bo 0) q = Inr q"
proof -
  from assms(2) have "load_u32 bo q (ptr_add h (uint sz)) = Inr GUARD_PATTERN"
    by (simp add: check_True_iff)
  from load_u32_guardD[OF assms(1) this]
  have "load_bytes q (ptr_add h (uint sz)) 4 = Inr (u32_bytes bo GUARD_PATTERN)" .
  from load_bytes_prefix[OF this, of 1]
  have "load_bytes q (ptr_add h (uint sz)) 1 = Inr (take 1 (u32_bytes bo GUARD_PATTERN))" by simp
  moreover have "take 1 (u32_bytes bo GUARD_PATTERN) = [guard_byte bo 0]"
    using length_u32_bytes[of bo GUARD_PATTERN]
    by (cases "u32_bytes bo GUARD_PATTERN") (simp_all add: guard_byte_def)
  ultimately have "load_bytes q (ptr_add h (uint sz)) (length [guard_byte bo 0]) = Inr [guard_byte bo 0]"
    by simp
  from store_same[OF assms(1) this] show ?thesis by (simp add: poke_def)
qed

text \<open>
  Claim C1, as amended. Let \<open>size\<close> be such that \<^verbatim>\<open>4 + size + 4\<close> does not wrap in
  \<^verbatim>\<open>size_t\<close>, that is \<open>size \<le> SIZE_MAX - 8\<close>. When \<^verbatim>\<open>create_guarded_buffer\<close> succeeds for
  such a size, the integrity check of the returned pointer is true at once and after any
  sequence of byte writes at payload offsets in \<open>[0, size)\<close>, none of which faults. After
  such writes, one more write at a marker byte (offsets \<open>-4..-1\<close> or \<open>size..size+3\<close>) that
  stores a value other than the marker's own byte at that position makes the check false.
  In every pool state, for every pointer and size, the check is true only if the four
  bytes before the pointer and the four bytes at offset \<open>size\<close> both read as
  \<open>GUARD_PATTERN\<close>.
\<close>

theorem guarded_buffer_integrity:
  assumes "wf_pool pool" and "unat sz + 8 < 2 ^ 64"
    and "create_guarded_buffer bo sz pool = (Inr (Addr h), pool1)"
  shows "check_buffer_integrity bo (Addr h) sz pool1 = Inr True \<and>
    (\<forall>ws. list_all (\<lambda>(j, v). 0 \<le> j \<and> j < uint sz) ws \<longrightarrow>
       (\<exists>pool2. write_bytes (Addr h) ws pool1 = Inr pool2 \<and>
          check_buffer_integrity bo (Addr h) sz pool2 = Inr True \<and>
          (\<forall>k v. (- 4 \<le> k \<and> k < 0 \<and> v \<noteq> guard_byte bo (nat (k + 4))) \<or>
                 (uint sz \<le> k \<and> k < uint sz + 4 \<and> v \<noteq> guard_byte bo (nat (k - uint sz))) \<longrightarrow>
             (\<exists>pool3. poke (Addr h) k v pool2 = Inr pool3 \<and>
                check_buffer_integrity bo (Addr h) sz pool3 = Inr False)))) \<and>
    (\<forall>q p s. check_buffer_integrity bo p s q = Inr True \<longrightarrow>
       (\<exists>a. p = Addr a \<and> load_u32 bo q (ptr_add a (- 4)) = Inr GUARD_PATTERN \<and>
            load_u32 bo q (ptr_add a (uint s)) = Inr GUARD_PATTERN))"
proof -
  from create_intact[OF assms(1,3,2)] have wf1: "wf_pool pool1"
    and c1: "check_buffer_integrity bo (Addr h) sz pool1 = Inr True" by simp_all
  from assms(3,2) obtain b pool0 where b: "h = block_data b + 4" "b < POOL_NUM_BLOCKS"
    and sz: "unat sz \<le> 56"
    by (rule create_nowrapD)
  have part2: "\<exists>pool2. write_bytes (Addr h) ws pool1 = Inr pool2 \<and>
          check_buffer_integrity bo (Addr h) sz pool2 = Inr True \<and>
          (\<forall>k v. (- 4 \<le> k \<and> k < 0 \<and> v \<noteq> guard_byte bo (nat (k + 4))) \<or>
                 (uint sz \<le> k \<and> k < uint sz + 4 \<and> v \<noteq> guard_byte bo (nat (k - uint sz))) \<longrightarrow>
             (\<exists>pool3. poke (Addr h) k v pool2 = Inr pool3 \<and>
                check_buffer_integrity bo (Addr h) sz pool3 = Inr False))"
    if ws: "list_all (\<lambda>(j, v). 0 \<le> j \<and> j < uint sz) ws" for ws
  proof -
    from inbounds_writes[OF b sz wf1 c1 ws] obtain pool2
      where p2: "write_bytes (Addr h) ws pool1 = Inr pool2" "wf_pool pool2"
        "check_buffer_integrity bo (Addr h) sz pool2 = Inr True"
      by blast
    have "\<exists>pool3. poke (Addr h) k v pool2 = Inr pool3 \<and>
                check_buffer_integrity bo (Addr h) sz pool3 = Inr False"
      if m: "(- 4 \<le> k \<and> k < 0 \<and> v \<noteq> guard_byte bo (nat (k + 4))) \<or>
             (uint sz \<le> k \<and> k < uint sz + 4 \<and> v \<noteq> guard_byte bo (nat (k - uint sz)))"
      for k v
      using m
    proof
      assume "- 4 \<le> k \<and> k < 0 \<and> v \<noteq> guard_byte bo (nat (k + 4))"
      then have "- 4 \<le> k" "k < 0" "v \<noteq> guard_byte bo (nat (k + 4))" by simp_all
      from check_detects_start[OF p2(2,3) this] show ?thesis by blast
    next
      assume "uint sz \<le> k \<and> k < uint sz + 4 \<and> v \<noteq> guard_byte bo (nat (k - uint sz))"
      then have "uint sz \<le> k" "k < uint sz + 4" "v \<noteq> guard_byte bo (nat (k - uint sz))"
        by simp_all
      from check_detects_end[OF p2(2,3) this] show ?thesis by blast
    qed
    with p2(1,3) show ?thesis by blast
  qed
  have part3: "\<exists>a. p = Addr a \<and> load_u32 bo q (ptr_add a (- 4)) = Inr GUARD_PATTERN \<and>
            load_u32 bo q (ptr_add a (uint s)) = Inr GUARD_PATTERN"
    if "check_buffer_integrity bo p s q = Inr True" for q p s
    using that unfolding check_True_iff by blast
  from c1 part2 part3 show ?thesis by blast
qed

theorem guarded_buffer_integrity_witness:
  "fst (create_guarded_buffer LittleEndian 16 g_memory_pool) = Inr (Addr 4) \<and>
   check_buffer_integrity LittleEndian (Addr 4) 16
     (snd (create_guarded_buffer LittleEndian 16 g_memory_pool)) = Inr True \<and>
   (\<exists>pool2. write_bytes (Addr 4) [(0, 0x54), (15, 0x21)]
        (snd (create_guarded_buffer LittleEndian 16 g_memory_pool)) = Inr pool2 \<and>
      check_buffer_integrity LittleEndian (Addr 4) 16 pool2 = Inr True \<and>
      (\<exists>pool3. poke (Addr 4) 17 0x58 pool2 = Inr pool3 \<and>
         check_buffer_integrity LittleEndian (Addr 4) 16 pool3 = Inr False) \<and>
      (\<exists>pool3. poke (Addr 4) (- 1) 0 pool2 = Inr pool3 \<and>
         check_buffer_integrity LittleEndian (Addr 4) 16 pool3 = Inr False))"
proof -
  let ?P = "snd (create_guarded_buffer LittleEndian 16 g_memory_pool)"
  have cr: "create_guarded_buffer LittleEndian 16 g_memory_pool = (Inr (Addr 4), ?P)"
    by (rule create_initial) simp_all
  have "unat (16 :: size_t) + 8 < 2 ^ 64" by simp
  note t = guarded_buffer_integrity[OF wf_initial this cr]
  have ws: "list_all (\<lambda>(j, v). 0 \<le> j \<and> j < uint (16 :: size_t)) [(0, 0x54 :: u8), (15, 0x21)]"
    by simp
  from t ws obtain pool2 where p2: "write_bytes (Addr 4) [(0, 0x54), (15, 0x21)] ?P = Inr pool2"
    "check_buffer_integrity LittleEndian (Addr 4) 16 pool2 = Inr True"
    and det: "\<And>k v. (- 4 \<le> k \<and> k < 0 \<and> v \<noteq> guard_byte LittleEndian (nat (k + 4))) \<or>
                 (uint (16 :: size_t) \<le> k \<and> k < uint (16 :: size_t) + 4 \<and>
                  v \<noteq> guard_byte LittleEndian (nat (k - uint (16 :: size_t)))) \<Longrightarrow>
             (\<exists>pool3. poke (Addr 4) k v pool2 = Inr pool3 \<and>
                check_buffer_integrity LittleEndian (Addr 4) 16 pool3 = Inr False)"
    by blast
  have a: "\<exists>pool3. poke (Addr 4) 17 0x58 pool2 = Inr pool3 \<and>
         check_buffer_integrity LittleEndian (Addr 4) 16 pool3 = Inr False"
    by (rule det) (simp add: guard_byte_values)
  have b: "\<exists>pool3. poke (Addr 4) (- 1) 0 pool2 = Inr pool3 \<and>
         check_buffer_integrity LittleEndian (Addr 4) 16 pool3 = Inr False"
    by (rule det) (simp add: guard_byte_values)
  have f: "fst (create_guarded_buffer LittleEndian 16 g_memory_pool) = Inr (Addr 4)"
    by (subst cr) simp
  from t have c: "check_buffer_integrity LittleEndian (Addr 4) 16 ?P = Inr True" by blast
  from f c p2 a b show ?thesis by blast
qed

text \<open>
  The claim as written fails: a write that touches payload byte \<open>size\<close> and stores the
  byte the marker already holds there (\<open>0xEF\<close> little-endian, \<open>0xDE\<close> big-endian) leaves
  the pool as it was and the check true, and so does a write at offset \<open>size + 4\<close>, beyond
  the end marker.
\<close>

theorem guard_write_undetected:
  "fst (create_guarded_buffer LittleEndian 16 g_memory_pool) = Inr (Addr 4) \<and>
   poke (Addr 4) 16 0xEF (snd (create_guarded_buffer LittleEndian 16 g_memory_pool))
     = Inr (snd (create_guarded_buffer LittleEndian 16 g_memory_pool)) \<and>
   check_buffer_integrity LittleEndian (Addr 4) 16
     (snd (create_guarded_buffer LittleEndian 16 g_memory_pool)) = Inr True \<and>
   fst (create_guarded_buffer BigEndian 16 g_memory_pool) = Inr (Addr 4) \<and>
   poke (Addr 4) 16 0xDE (snd (create_guarded_buffer BigEndian 16 g_memory_pool))
     = Inr (snd (create_guarded_buffer BigEndian 16 g_memory_pool)) \<and>
   check_buffer_integrity BigEndian (Addr 4) 16
     (snd (create_guarded_buffer BigEndian 16 g_memory_pool)) = Inr True \<and>
   \<not> isl (poke (Addr 4) 20 0x58 (snd (create_guarded_buffer LittleEndian 16 g_memory_pool))) \<and>
   check_buffer_integrity LittleEndian (Addr 4) 16
     (projr (poke (Addr 4) 20 0x58 (snd (create_guarded_buffer LittleEndian 16 g_memory_pool))))
     = Inr True"
proof -
  have cr: "create_guarded_buffer bo 16 g_memory_pool
      = (Inr (Addr 4), snd (create_guarded_buffer bo 16 g_memory_pool))" for bo
    by (rule create_initial) simp_all
  have nw: "unat (16 :: size_t) + 8 < 2 ^ 64" by simp
  note i = create_intact[OF wf_initial cr nw]
  have same: "poke (Addr 4) 16 (guard_byte bo 0) (snd (create_guarded_buffer bo 16 g_memory_pool))
      = Inr (snd (create_guarded_buffer bo 16 g_memory_pool))" for bo
    using rewrite_marker_byte[OF i, of bo] by simp
  let ?P = "snd (create_guarded_buffer LittleEndian 16 g_memory_pool)"
  have l: "locate (block_data 0 + int 24) = Some (0, 24)"
    by (rule locate_block) (simp_all add: POOL_NUM_BLOCKS_def POOL_BLOCK_SIZE_def)
  then have l': "locate 24 = Some (0, 24)" by (simp add: block_data_def)
  from store_bytes_Some[OF l', of "[0x58]" ?P] obtain q where
    q: "store_bytes ?P 24 [0x58] = Inr q"
    by (simp add: POOL_BLOCK_SIZE_def)
  then have pk: "poke (Addr 4) 20 0x58 ?P = Inr q" by (simp add: poke_def ptr_add_def)
  have "check_buffer_integrity LittleEndian (Addr 4) 16 q = Inr True"
    by (rule check_preserved[OF i q]) (simp_all add: ptr_add_def)
  with pk have beyond:
    "\<not> isl (poke (Addr 4) 20 0x58 ?P)"
    "check_buffer_integrity LittleEndian (Addr 4) 16 (projr (poke (Addr 4) 20 0x58 ?P)) = Inr True"
    by simp_all
  have f: "fst (create_guarded_buffer bo 16 g_memory_pool) = Inr (Addr 4)" for bo
    by (subst cr) simp
  from same[of LittleEndian] same[of BigEndian]
  have s: "poke (Addr 4) 16 0xEF ?P = Inr ?P"
    "poke (Addr 4) 16 0xDE (snd (create_guarded_buffer BigEndian 16 g_memory_pool))
      = Inr (snd (create_guarded_buffer BigEndian 16 g_memory_pool))"
    by (simp_all add: guard_byte_values)
  from f[of LittleEndian] f[of BigEndian] s i(2)[of LittleEndian] i(2)[of BigEndian] beyond
  show ?thesis by blast
qed

text \<open>
  The restriction to sizes that do not wrap is needed. For \<open>size = SIZE_MAX\<close> the sum
  \<^verbatim>\<open>4 + size + 4\<close> is 7, \<^verbatim>\<open>pool_alloc\<close> succeeds, and \<^verbatim>\<open>buffer->data + size\<close> is the
  address one byte before \<^verbatim>\<open>buffer->data\<close>: the end marker is stored over the last byte of
  the start marker, a pointer is returned, and the integrity check of the fresh buffer is
  false.
\<close>

lemma create_wrapped_block_image:
  "create_guarded_buffer bo (- 1) g_memory_pool =
     (Inr (Addr 4), (claim_block 0 g_memory_pool)\<lparr>blocks := (blocks (claim_block 0 g_memory_pool))
        [0 := \<lparr>data = take 3 (u32_bytes bo GUARD_PATTERN) @ u32_bytes bo GUARD_PATTERN @
                  replicate 57 0, in_use = True\<rparr>]\<rparr>)"
proof -
  have t: "(4 + (- 1) + 4 :: size_t) = 7" by simp
  have a: "pool_alloc (4 + (- 1) + 4) g_memory_pool = (AllocOk 0, claim_block 0 g_memory_pool)"
    unfolding t by (rule alloc_initial_any) (simp_all add: POOL_BLOCK_SIZE_def)
  have nz: "(- 1 :: size_t) \<noteq> 0" by simp
  have l: "locate 0 = Some (0, 0)" "locate 3 = Some (0, 3)"
    by (simp_all add: locate_def POOL_NUM_BLOCKS_def POOL_BLOCK_SIZE_def BLOCK_STRIDE_def)
  have ui: "uint (- 1 :: size_t) = 18446744073709551615"
    by (simp add: unsigned_minus_1_eq_mask mask_eq_exp_minus_1)
  have e: "ptr_add (block_data 0 + 4) (uint (- 1 :: size_t)) = 3"
    unfolding ui by (simp add: ptr_add_def block_data_def)
  obtain b0 b1 b2 b3 where g: "u32_bytes bo GUARD_PATTERN = [b0, b1, b2, b3]"
    by (cases bo) (simp_all add: guard_bytes_le guard_bytes_be)
  have k: "0 < POOL_NUM_BLOCKS" by (simp add: POOL_NUM_BLOCKS_def)
  from create_alloc_ok[OF nz a k, of bo] show ?thesis
    unfolding e
    by (simp add: store_u32_def store_bytes_def l g block_data_def claim_block_def
        g_memory_pool_def POOL_NUM_BLOCKS_def POOL_BLOCK_SIZE_def overwrite_def
        replicate_add[symmetric] del: replicate_add)
qed

lemma create_wrapped_check_fails:
  "fst (create_guarded_buffer bo (- 1) g_memory_pool) = Inr (Addr 4) \<and>
   check_buffer_integrity bo (Addr 4) (- 1) (snd (create_guarded_buffer bo (- 1) g_memory_pool))
     = Inr False"
proof -
  have l: "locate 0 = Some (0, 0)" "locate 3 = Some (0, 3)"
    by (simp_all add: locate_def POOL_NUM_BLOCKS_def POOL_BLOCK_SIZE_def BLOCK_STRIDE_def)
  have ui: "uint (- 1 :: size_t) = 18446744073709551615"
    by (simp add: unsigned_minus_1_eq_mask mask_eq_exp_minus_1)
  have e: "ptr_add 4 (uint (- 1 :: size_t)) = 3" "ptr_add 4 (- 4) = 0"
    unfolding ui by (simp_all add: ptr_add_def)
  have nz: "(- 1 :: size_t) \<noteq> 0" by simp
  have v: "bytes_u32 LittleEndian [0xEF, 0xBE, 0xAD, 0xEF] \<noteq> GUARD_PATTERN"
    "bytes_u32 BigEndian [0xDE, 0xAD, 0xBE, 0xDE] \<noteq> GUARD_PATTERN"
    by (simp_all add: bytes_u32_def GUARD_PATTERN_def)
  show ?thesis
    unfolding create_wrapped_block_image
    using v
    by (cases bo)
       (simp_all add: check_buffer_integrity_def nz e load_u32_def load_bytes_def l
          guard_bytes_le guard_bytes_be claim_block_def g_memory_pool_def POOL_NUM_BLOCKS_def
          POOL_BLOCK_SIZE_def)
qed

section \<open>Guarded buffers: release\<close>

lemma free_guarded_null: "free_guarded_buffer bo NULL sz pool = (Inr GuardedNull, pool)"
  by (simp add: free_guarded_buffer_def)

lemma free_guarded_checked:
  "free_guarded_buffer bo (Addr p) sz pool =
     (case check_buffer_integrity bo (Addr p) sz pool of
        Inl f \<Rightarrow> (Inl f, pool)
      | Inr ok \<Rightarrow>
          if ok then (Inr (GuardedReleased (free_value (fst (pool_free (Addr (ptr_add p (- 4))) pool)))),
                      snd (pool_free (Addr (ptr_add p (- 4))) pool))
          else (Inr GuardedCorrupted, pool))"
  by (cases "check_buffer_integrity bo (Addr p) sz pool")
     (simp_all add: free_guarded_buffer_def split_beta)

lemma pool_free_block_start:
  assumes "k < POOL_NUM_BLOCKS" "in_use (blocks pool ! k)"
  shows "pool_free (Addr (block_data k)) pool = (FreeOk, release_block k pool)"
proof -
  have "in_block (block_data k) k" by (simp add: in_block_def POOL_BLOCK_SIZE_def)
  from free_scan_hit[OF _ assms(1) this, of 0 pool] assms(2) show ?thesis
    by (simp add: pool_free_def)
qed

lemma block_start_address:
  assumes "0 \<le> p" "p < 2 ^ 64" "load_u32 bo q (ptr_add p (- 4)) = Inr w"
  shows "ptr_add p (- 4) = p - 4"
proof (cases "4 \<le> p")
  case True
  with assms(2) show ?thesis using ptr_add_small[of p "- 4"] by simp
next
  case False
  have "(p + - 4 + 2 ^ 64) mod 2 ^ 64 = (p + - 4) mod (2 ^ 64 :: int)" by (rule mod_add_self2)
  moreover have "(p + - 4 + 2 ^ 64) mod 2 ^ 64 = p + - 4 + (2 ^ 64 :: int)"
    using False assms(1) by (intro mod_pos_pos_trivial) simp_all
  ultimately have "ptr_add p (- 4) = p + - 4 + 2 ^ 64" by (simp only: ptr_add_def)
  with assms(1) have "2080 \<le> ptr_add p (- 4)" by simp
  with load_u32_bound(2)[OF assms(3)] show ?thesis by simp
qed

text \<open>
  Claim C2, as amended. \<^verbatim>\<open>free_guarded_buffer\<close> returns at once for a null pointer and
  otherwise decides by the integrity check. When the check fails (or faults) the pool is
  returned unchanged and \<^verbatim>\<open>pool_free\<close> is not called. When it passes,
  \<^verbatim>\<open>pool_free\<close> is called on the block start; for the payload pointer of a block in
  use this clears the block's \<open>in_use\<close> flag, zeroes its bytes and decrements
  \<open>allocated_count\<close>.
\<close>

theorem free_guarded_buffer_contract:
  "free_guarded_buffer bo NULL sz pool = (Inr GuardedNull, pool) \<and>
   (\<forall>f. check_buffer_integrity bo (Addr p) sz pool = Inl f \<longrightarrow>
      free_guarded_buffer bo (Addr p) sz pool = (Inl f, pool)) \<and>
   (check_buffer_integrity bo (Addr p) sz pool = Inr False \<longrightarrow>
      free_guarded_buffer bo (Addr p) sz pool = (Inr GuardedCorrupted, pool)) \<and>
   (check_buffer_integrity bo (Addr p) sz pool = Inr True \<longrightarrow>
      free_guarded_buffer bo (Addr p) sz pool =
        (Inr (GuardedReleased (free_value (fst (pool_free (Addr (ptr_add p (- 4))) pool)))),
         snd (pool_free (Addr (ptr_add p (- 4))) pool))) \<and>
   (0 \<le> p \<and> p < 2 ^ 64 \<and> check_buffer_integrity bo (Addr p) sz pool = Inr True \<longrightarrow>
      free_guarded_buffer bo (Addr p) sz pool =
        (Inr (GuardedReleased (free_value (fst (pool_free (Addr (p - 4)) pool)))),
         snd (pool_free (Addr (p - 4)) pool))) \<and>
   (check_buffer_integrity bo (Addr p) sz pool = Inr True \<and> k < POOL_NUM_BLOCKS \<and>
    p = block_data k + 4 \<and> in_use (blocks pool ! k) \<longrightarrow>
      free_guarded_buffer bo (Addr p) sz pool =
        (Inr (GuardedReleased True),
         pool\<lparr>blocks := (blocks pool)[k := \<lparr>data = replicate POOL_BLOCK_SIZE 0, in_use = False\<rparr>],
              allocated_count := allocated_count pool - 1\<rparr>))"
proof (intro conjI allI impI)
  show "free_guarded_buffer bo NULL sz pool = (Inr GuardedNull, pool)"
    by (rule free_guarded_null)
next
  fix f assume "check_buffer_integrity bo (Addr p) sz pool = Inl f"
  then show "free_guarded_buffer bo (Addr p) sz pool = (Inl f, pool)"
    by (simp add: free_guarded_checked)
next
  assume "check_buffer_integrity bo (Addr p) sz pool = Inr False"
  then show "free_guarded_buffer bo (Addr p) sz pool = (Inr GuardedCorrupted, pool)"
    by (simp add: free_guarded_checked)
next
  assume "check_buffer_integrity bo (Addr p) sz pool = Inr True"
  then show "free_guarded_buffer bo (Addr p) sz pool =
        (Inr (GuardedReleased (free_value (fst (pool_free (Addr (ptr_add p (- 4))) pool)))),
         snd (pool_free (Addr (ptr_add p (- 4))) pool))"
    by (simp add: free_guarded_checked)
next
  assume b: "0 \<le> p \<and> p < 2 ^ 64 \<and> check_buffer_integrity bo (Addr p) sz pool = Inr True"
  then have c: "check_buffer_integrity bo (Addr p) sz pool = Inr True" by blast
  then have "load_u32 bo pool (ptr_add p (- 4)) = Inr GUARD_PATTERN" by (simp add: check_True_iff)
  with b have "ptr_add p (- 4) = p - 4" by (intro block_start_address) blast+
  with c show "free_guarded_buffer bo (Addr p) sz pool =
        (Inr (GuardedReleased (free_value (fst (pool_free (Addr (p - 4)) pool)))),
         snd (pool_free (Addr (p - 4)) pool))"
    by (simp add: free_guarded_checked)
next
  assume a: "check_buffer_integrity bo (Addr p) sz pool = Inr True \<and> k < POOL_NUM_BLOCKS \<and>
    p = block_data k + 4 \<and> in_use (blocks pool ! k)"
  then have c: "check_buffer_integrity bo (Addr p) sz pool = Inr True"
    and k: "k < POOL_NUM_BLOCKS" "in_use (blocks pool ! k)" and p': "p = block_data k + 4"
    by blast+
  have p: "ptr_add p (- 4) = block_data k"
    unfolding p' using payload_addresses[OF k(1), of "- 4"] by simp
  have "pool_free (Addr (ptr_add p (- 4))) pool = (FreeOk, release_block k pool)"
    unfolding p by (rule pool_free_block_start[OF k])
  with c show "free_guarded_buffer bo (Addr p) sz pool =
        (Inr (GuardedReleased True),
         pool\<lparr>blocks := (blocks pool)[k := \<lparr>data = replicate POOL_BLOCK_SIZE 0, in_use = False\<rparr>],
              allocated_count := allocated_count pool - 1\<rparr>)"
    by (simp add: free_guarded_checked release_block_def)
qed

lemma created_initial_state:
  fixes bo sz
  assumes "sz \<noteq> 0" "unat sz \<le> 56"
  defines "P \<equiv> snd (create_guarded_buffer bo sz g_memory_pool)"
  shows "wf_pool P" "check_buffer_integrity bo (Addr 4) sz P = Inr True"
    "in_use (blocks P ! 0)" "allocated_count P = 1"
proof -
  have cr: "create_guarded_buffer bo sz g_memory_pool = (Inr (Addr 4), P)"
    unfolding P_def by (rule create_initial[OF assms(1,2)])
  have "unat sz + 8 < 2 ^ 64" using assms(2) by simp
  from create_intact[OF wf_initial cr this]
  show "wf_pool P" "check_buffer_integrity bo (Addr 4) sz P = Inr True" by simp_all
  from create_state[OF wf_initial cr] obtain k where k: "4 = block_data k + 4"
    "in_use (blocks P ! k)" "allocated_count P = allocated_count g_memory_pool + 1"
    by blast
  from k(1) have "block_data k = block_data 0" by (simp add: block_data_def)
  then have "k = 0" by (rule block_data_inj)
  with k show "in_use (blocks P ! 0)" "allocated_count P = 1"
    by (simp_all add: g_memory_pool_def)
qed

theorem free_guarded_buffer_contract_witness:
  "check_buffer_integrity LittleEndian (Addr 4) 16
     (snd (create_guarded_buffer LittleEndian 16 g_memory_pool)) = Inr True \<and>
   fst (free_guarded_buffer LittleEndian (Addr 4) 16
     (snd (create_guarded_buffer LittleEndian 16 g_memory_pool))) = Inr (GuardedReleased True) \<and>
   \<not> in_use (blocks (snd (free_guarded_buffer LittleEndian (Addr 4) 16
     (snd (create_guarded_buffer LittleEndian 16 g_memory_pool)))) ! 0) \<and>
   allocated_count (snd (free_guarded_buffer LittleEndian (Addr 4) 16
     (snd (create_guarded_buffer LittleEndian 16 g_memory_pool)))) = 0 \<and>
   check_buffer_integrity LittleEndian (Addr 4) 16
     (projr (poke (Addr 4) 16 0 (snd (create_guarded_buffer LittleEndian 16 g_memory_pool))))
     = Inr False \<and>
   free_guarded_buffer LittleEndian (Addr 4) 16
     (projr (poke (Addr 4) 16 0 (snd (create_guarded_buffer LittleEndian 16 g_memory_pool))))
     = (Inr GuardedCorrupted,
        projr (poke (Addr 4) 16 0 (snd (create_guarded_buffer LittleEndian 16 g_memory_pool)))) \<and>
   check_buffer_integrity LittleEndian (Addr (- 100)) 16 g_memory_pool = Inl OutOfBounds \<and>
   free_guarded_buffer LittleEndian (Addr (- 100)) 16 g_memory_pool
     = (Inl OutOfBounds, g_memory_pool) \<and>
   free_guarded_buffer LittleEndian NULL 16 g_memory_pool = (Inr GuardedNull, g_memory_pool)"
proof -
  let ?P = "snd (create_guarded_buffer LittleEndian 16 g_memory_pool)"
  note st = created_initial_state[of 16 LittleEndian, simplified]
  have len: "0 < length (blocks ?P)" using st(1) by (simp add: wf_pool_def POOL_NUM_BLOCKS_def)
  have rel: "free_guarded_buffer LittleEndian (Addr 4) 16 ?P =
        (Inr (GuardedReleased True),
         ?P\<lparr>blocks := (blocks ?P)[0 := \<lparr>data = replicate POOL_BLOCK_SIZE 0, in_use = False\<rparr>],
              allocated_count := allocated_count ?P - 1\<rparr>)"
  proof -
    have "check_buffer_integrity LittleEndian (Addr 4) 16 ?P = Inr True \<and> 0 < POOL_NUM_BLOCKS \<and>
        4 = block_data 0 + 4 \<and> in_use (blocks ?P ! 0)"
      using st by (simp add: POOL_NUM_BLOCKS_def block_data_def)
    with free_guarded_buffer_contract[of LittleEndian 16 ?P 4 0] show ?thesis by blast
  qed
  from check_detects_end[OF st(1,2), of 16 0] obtain q where
    q: "poke (Addr 4) 16 0 ?P = Inr q" "check_buffer_integrity LittleEndian (Addr 4) 16 q = Inr False"
    by (auto simp: guard_byte_values)
  have cor: "free_guarded_buffer LittleEndian (Addr 4) 16 q = (Inr GuardedCorrupted, q)"
    using free_guarded_buffer_contract[of LittleEndian 16 q 4 0] q(2) by blast
  have "locate (ptr_add (- 100) (- 4)) = None"
    by (simp add: locate_def ptr_add_def BLOCK_STRIDE_def POOL_BLOCK_SIZE_def POOL_NUM_BLOCKS_def)
  then have flt: "check_buffer_integrity LittleEndian (Addr (- 100)) 16 g_memory_pool = Inl OutOfBounds"
    by (simp add: check_buffer_integrity_def load_u32_def load_bytes_def)
  then have fl: "free_guarded_buffer LittleEndian (Addr (- 100)) 16 g_memory_pool
     = (Inl OutOfBounds, g_memory_pool)"
    using free_guarded_buffer_contract[of LittleEndian 16 g_memory_pool "- 100" 0] by blast
  have nl: "free_guarded_buffer LittleEndian NULL 16 g_memory_pool = (Inr GuardedNull, g_memory_pool)"
    using free_guarded_buffer_contract[of LittleEndian 16 g_memory_pool 0 0] by blast
  from st rel len q cor flt fl nl show ?thesis by simp
qed

text \<open>
  The last clause of the claim as written, that no operation returns a corrupted buffer to
  the free pool, fails: \<^verbatim>\<open>pool_free\<close> on the payload pointer and \<^verbatim>\<open>pool_reset\<close>
  release the block of a buffer whose end marker has been overwritten.
\<close>

theorem corrupted_buffer_released_by_pool:
  "check_buffer_integrity LittleEndian (Addr 4) 16
     (projr (poke (Addr 4) 16 0 (snd (create_guarded_buffer LittleEndian 16 g_memory_pool))))
     = Inr False \<and>
   in_use (blocks
     (projr (poke (Addr 4) 16 0 (snd (create_guarded_buffer LittleEndian 16 g_memory_pool)))) ! 0) \<and>
   fst (pool_free (Addr 4)
     (projr (poke (Addr 4) 16 0 (snd (create_guarded_buffer LittleEndian 16 g_memory_pool)))))
     = FreeOk \<and>
   \<not> in_use (blocks (snd (pool_free (Addr 4)
     (projr (poke (Addr 4) 16 0 (snd (create_guarded_buffer LittleEndian 16 g_memory_pool)))))) ! 0) \<and>
   \<not> in_use (blocks (pool_reset
     (projr (poke (Addr 4) 16 0 (snd (create_guarded_buffer LittleEndian 16 g_memory_pool))))) ! 0)"
proof -
  let ?P = "snd (create_guarded_buffer LittleEndian 16 g_memory_pool)"
  note st = created_initial_state[of 16 LittleEndian, simplified]
  from check_detects_end[OF st(1,2), of 16 0] obtain q where
    q: "poke (Addr 4) 16 0 ?P = Inr q" "check_buffer_integrity LittleEndian (Addr 4) 16 q = Inr False"
    by (auto simp: guard_byte_values)
  from q(1) have sb: "store_bytes ?P (4 + 16) [0] = Inr q" by (simp add: poke_def ptr_add_def)
  have wf: "wf_pool q" by (rule wf_store[OF st(1) sb])
  then have len: "0 < length (blocks q)" by (simp add: wf_pool_def POOL_NUM_BLOCKS_def)
  have "map in_use (blocks q) ! 0 = map in_use (blocks ?P) ! 0"
    using store_keeps_flags(1)[OF sb] by simp
  with len st(1,3) have u: "in_use (blocks q ! 0)" by (simp add: wf_pool_def POOL_NUM_BLOCKS_def)
  have "in_block 4 0" by (simp add: in_block_def block_data_def POOL_BLOCK_SIZE_def)
  from free_scan_hit[OF _ _ this, of 0 q] u
  have fr: "pool_free (Addr 4) q = (FreeOk, release_block 0 q)"
    by (simp add: pool_free_def POOL_NUM_BLOCKS_def)
  have r1: "\<not> in_use (blocks (release_block 0 q) ! 0)" by (rule released_not_in_use[OF len])
  have r2: "\<not> in_use (blocks (pool_reset q) ! 0)"
    by (simp add: pool_reset_eq[OF wf] cleared_def POOL_NUM_BLOCKS_def)
  from q u fr r1 r2 show ?thesis by simp
qed

section \<open>Guarded buffers: the size computation\<close>

text \<open>
  Claim C9 at the size \<open>2^64 - 7\<close>, which is greater than 56. \<^verbatim>\<open>total_size\<close> wraps to 1,
  \<^verbatim>\<open>pool_alloc\<close> succeeds and takes block 0, and the store of the end marker falls outside
  the block: the call does not fail with the pool unchanged.
\<close>

theorem create_guarded_buffer_size_wraps:
  "unat (- 7 :: size_t) = 18446744073709551609 \<and>
   (4 + (- 7) + 4 :: size_t) = 1 \<and>
   fst (pool_alloc (4 + (- 7) + 4) g_memory_pool) = AllocOk 0 \<and>
   fst (create_guarded_buffer bo (- 7) g_memory_pool) = Inl OutOfBounds \<and>
   in_use (blocks (snd (create_guarded_buffer bo (- 7) g_memory_pool)) ! 0) \<and>
   allocated_count (snd (create_guarded_buffer bo (- 7) g_memory_pool)) = 1 \<and>
   peak_usage (snd (create_guarded_buffer bo (- 7) g_memory_pool)) = 1"
proof -
  have u: "unat (- 7 :: size_t) = 18446744073709551609" by simp
  have t: "(4 + (- 7) + 4 :: size_t) = 1" by simp
  have a: "pool_alloc (4 + (- 7) + 4) g_memory_pool = (AllocOk 0, claim_block 0 g_memory_pool)"
    unfolding t by (rule alloc_initial_any) (simp_all add: POOL_BLOCK_SIZE_def)
  have nz: "(- 7 :: size_t) \<noteq> 0" by simp
  obtain pool2 where s1: "store_u32 bo (claim_block 0 g_memory_pool) (block_data 0) GUARD_PATTERN = Inr pool2"
    by (rule store_block_start[of 0]) (simp add: POOL_NUM_BLOCKS_def)
  have ui: "uint (- 7 :: size_t) = 18446744073709551609" by simp
  have "locate (ptr_add (block_data 0 + 4) (uint (- 7 :: size_t))) = None"
    unfolding ui by (simp add: locate_def ptr_add_def block_data_def BLOCK_STRIDE_def
        POOL_BLOCK_SIZE_def POOL_NUM_BLOCKS_def)
  then have s2: "store_u32 bo pool2 (ptr_add (block_data 0 + 4) (uint (- 7 :: size_t))) GUARD_PATTERN
      = Inl OutOfBounds"
    by (simp add: store_u32_def store_bytes_def)
  have k: "0 < POOL_NUM_BLOCKS" by (simp add: POOL_NUM_BLOCKS_def)
  from create_alloc_ok[OF nz a k, of bo] s1 s2
  have r: "create_guarded_buffer bo (- 7) g_memory_pool = (Inl OutOfBounds, pool2)" by simp
  note f = store_keeps_flags[OF s1[unfolded store_u32_def]]
  have len: "0 < length (blocks g_memory_pool)" by (simp add: blocks_initial_length POOL_NUM_BLOCKS_def)
  then have len1: "0 < length (blocks (claim_block 0 g_memory_pool))" by (simp add: claim_block_def)
  have "length (map in_use (blocks pool2)) = length (map in_use (blocks (claim_block 0 g_memory_pool)))"
    by (simp only: f(1))
  with len1 have len2: "0 < length (blocks pool2)" by simp
  have "in_use (blocks pool2 ! 0) = map in_use (blocks pool2) ! 0" using len2 by simp
  also have "\<dots> = map in_use (blocks (claim_block 0 g_memory_pool)) ! 0" by (simp only: f(1))
  also have "\<dots> = in_use (blocks (claim_block 0 g_memory_pool) ! 0)" using len1 by simp
  finally have iu: "in_use (blocks pool2 ! 0)" using claimed_in_use[OF len] by simp
  have cnt: "allocated_count pool2 = 1" "peak_usage pool2 = 1"
    using f(2,3) by (simp_all add: claim_block_def g_memory_pool_def)
  from u t a r iu cnt show ?thesis by simp
qed

subsection \<open>The memory image of a fresh guarded buffer\<close>

text \<open>
  Block 0 after \<^verbatim>\<open>create_guarded_buffer(16)\<close> on the initial pool, little-endian: the
  start marker, sixteen payload bytes, the end marker, and the unused rest of the block.
\<close>

lemma created_block_image:
  "data (blocks (snd (create_guarded_buffer LittleEndian 16 g_memory_pool)) ! 0)
     = [0xEF, 0xBE, 0xAD, 0xDE] @ replicate 16 0 @ [0xEF, 0xBE, 0xAD, 0xDE] @ replicate 40 0"
proof -
  have a: "pool_alloc (4 + 16 + 4) g_memory_pool = (AllocOk 0, claim_block 0 g_memory_pool)"
    by (rule alloc_initial_any) (simp_all add: POOL_BLOCK_SIZE_def)
  have l0: "locate 0 = Some (0, 0)" "locate 20 = Some (0, 20)"
    by (simp_all add: locate_def POOL_NUM_BLOCKS_def POOL_BLOCK_SIZE_def BLOCK_STRIDE_def)
  have e: "ptr_add (block_data 0 + 4) (uint (16 :: size_t)) = 20"
    by (simp add: ptr_add_def block_data_def)
  have k: "0 < POOL_NUM_BLOCKS" by (simp add: POOL_NUM_BLOCKS_def)
  have "(16::size_t) \<noteq> 0" by simp
  from create_alloc_ok[OF this a k, of LittleEndian] show ?thesis
    unfolding e
    by (simp add: store_u32_def store_bytes_def l0 guard_bytes_le block_data_def claim_block_def
        g_memory_pool_def POOL_NUM_BLOCKS_def POOL_BLOCK_SIZE_def overwrite_def
        replicate_add[symmetric] del: replicate_add)
qed

section \<open>Lemmas: the copy loop\<close>








section \<open>Lemmas: safe\_strcpy\<close>





section \<open>Safe string copy: the contract\<close>




section \<open>Secure comparison\<close>

lemma xor_zero_iff: "(x :: u8) XOR y = 0 \<longleftrightarrow> x = y"
proof
  assume "x XOR y = 0"
  then have "x XOR (x XOR y) = x XOR 0" by simp
  then show "x = y" by (simp add: xor.assoc[symmetric])
next
  assume "x = y"
  then show "x XOR y = 0" by simp
qed

lemma memcmp_loop_run:
  assumes "n \<le> length a" "n \<le> length b"
  shows "i \<le> n \<Longrightarrow>
     memcmp_loop i n a b r = Inr (n, foldl (\<lambda>r i. r OR (a ! i XOR b ! i)) r [i..<n])"
proof (induction "n - i" arbitrary: i r)
  case 0
  then have "i = n" by simp
  then show ?case by (subst memcmp_loop.simps) simp
next
  case (Suc m)
  then have lt: "i < n" by linarith
  with assms have "i < length a" "i < length b" by simp_all
  with lt have "memcmp_loop i n a b r = memcmp_loop (i + 1) n a b (r OR (a ! i XOR b ! i))"
    by (subst memcmp_loop.simps) simp
  moreover have "memcmp_loop (i + 1) n a b (r OR (a ! i XOR b ! i)) =
      Inr (n, foldl (\<lambda>r i. r OR (a ! i XOR b ! i)) (r OR (a ! i XOR b ! i)) [i + 1..<n])"
    using Suc.hyps(2) lt by (intro Suc.hyps(1)) simp_all
  moreover have "[i..<n] = i # [i + 1..<n]" using lt by (simp add: upt_conv_Cons)
  ultimately show ?case by simp
qed

lemma foldl_or_zero:
  "foldl (\<lambda>r i. r OR g i) r xs = (0 :: u8) \<longleftrightarrow> r = 0 \<and> list_all (\<lambda>i. g i = 0) xs"
  by (induction xs arbitrary: r) (auto simp: or_eq_0_iff)

lemma take_eq_iff:
  assumes "n \<le> length a" "n \<le> length b"
  shows "take n a = take n b \<longleftrightarrow> list_all (\<lambda>i. a ! i = b ! i) [0..<n]"
  using assms by (auto simp: list_eq_iff_nth_eq list_all_iff)

lemma secure_memcmp_run:
  assumes "unat sz \<le> length a" "unat sz \<le> length b"
  shows "secure_memcmp (Some a) (Some b) sz = Inr (take (unat sz) a = take (unat sz) b)"
proof -
  have "memcmp_loop 0 (unat sz) a b 0 =
      Inr (unat sz, foldl (\<lambda>r i. r OR (a ! i XOR b ! i)) 0 [0..<unat sz])"
    by (rule memcmp_loop_run[OF assms]) simp
  moreover have "foldl (\<lambda>r i. r OR (a ! i XOR b ! i)) 0 [0..<unat sz] = 0
      \<longleftrightarrow> take (unat sz) a = take (unat sz) b"
    by (simp add: foldl_or_zero xor_zero_iff take_eq_iff[OF assms])
  ultimately show ?thesis by (simp add: secure_memcmp_def)
qed

text \<open>
  Claim C8. For two arrays of at least \<open>size\<close> bytes the loop of \<^verbatim>\<open>secure_memcmp\<close> ends
  with \<open>i = size\<close> and the accumulator equal to the OR, over all positions below \<open>size\<close>,
  of the XOR of the two bytes; the function returns whether the accumulator is zero, which
  is whether the arrays agree at every position below \<open>size\<close>; an array compared with
  itself gives true.
\<close>

theorem secure_memcmp_contract:
  assumes "unat sz \<le> length a" and "unat sz \<le> length b"
  shows "memcmp_loop 0 (unat sz) a b 0 =
           Inr (unat sz, foldl (\<lambda>r i. r OR (a ! i XOR b ! i)) 0 [0..<unat sz]) \<and>
         secure_memcmp (Some a) (Some b) sz =
           Inr (foldl (\<lambda>r i. r OR (a ! i XOR b ! i)) 0 [0..<unat sz] = 0) \<and>
         secure_memcmp (Some a) (Some b) sz = Inr (\<forall>i<unat sz. a ! i = b ! i) \<and>
         secure_memcmp (Some a) (Some a) sz = Inr True"
proof -
  have run: "memcmp_loop 0 (unat sz) a b 0 =
      Inr (unat sz, foldl (\<lambda>r i. r OR (a ! i XOR b ! i)) 0 [0..<unat sz])"
    by (rule memcmp_loop_run[OF assms]) simp
  then have acc: "secure_memcmp (Some a) (Some b) sz =
           Inr (foldl (\<lambda>r i. r OR (a ! i XOR b ! i)) 0 [0..<unat sz] = 0)"
    by (simp add: secure_memcmp_def)
  have "(take (unat sz) a = take (unat sz) b) = (\<forall>i<unat sz. a ! i = b ! i)"
    by (auto simp: take_eq_iff[OF assms] list_all_iff)
  with secure_memcmp_run[OF assms]
  have eq: "secure_memcmp (Some a) (Some b) sz = Inr (\<forall>i<unat sz. a ! i = b ! i)" by simp
  have "secure_memcmp (Some a) (Some a) sz = Inr True"
    using secure_memcmp_run[OF assms(1) assms(1)] by simp
  with run acc eq show ?thesis by blast
qed

theorem secure_memcmp_contract_witness:
  "secure_memcmp (Some [0x73, 0x65, 0x63]) (Some [0x73, 0x65, 0x63]) 3 = Inr True \<and>
   secure_memcmp (Some [0x73, 0x65, 0x63]) (Some [0x64, 0x65, 0x63]) 3 = Inr False \<and>
   secure_memcmp (Some [0x73, 0x65, 0x63]) (Some [0x73, 0x65, 0x66]) 3 = Inr False \<and>
   memcmp_loop 0 3 [0x73, 0x65, 0x63] [0x64, 0x65, 0x63] 0 = Inr (3, 0x17) \<and>
   memcmp_loop 0 3 [0x73, 0x65, 0x63] [0x73, 0x65, 0x66] 0 = Inr (3, 0x05) \<and>
   secure_memcmp (Some [0x73, 0x65, 0x63]) (Some [0x73, 0x65, 0x66]) 2 = Inr True \<and>
   secure_memcmp (Some []) (Some []) 0 = Inr True"
proof -
  have u: "unat (3 :: size_t) = 3" "unat (2 :: size_t) = 2" "unat (0 :: size_t) = 0" by simp_all
  have l3: "[0..<3] = [0, 1, 2]" "[0..<2] = [0, 1]" by (simp_all add: upt_rec)
  note t1 = secure_memcmp_contract[of 3 "[0x73, 0x65, 0x63]" "[0x73, 0x65, 0x63]", unfolded u l3]
  note t2 = secure_memcmp_contract[of 3 "[0x73, 0x65, 0x63]" "[0x64, 0x65, 0x63]", unfolded u l3]
  note t3 = secure_memcmp_contract[of 3 "[0x73, 0x65, 0x63]" "[0x73, 0x65, 0x66]", unfolded u l3]
  note t4 = secure_memcmp_contract[of 2 "[0x73, 0x65, 0x63]" "[0x73, 0x65, 0x66]", unfolded u l3]
  note t5 = secure_memcmp_contract[of 0 "[]" "[]", unfolded u]
  from t1 have a: "secure_memcmp (Some [0x73, 0x65, 0x63]) (Some [0x73, 0x65, 0x63]) 3 = Inr True"
    by simp
  from t2 have b: "secure_memcmp (Some [0x73, 0x65, 0x63]) (Some [0x64, 0x65, 0x63]) 3 = Inr False"
    "memcmp_loop 0 3 [0x73, 0x65, 0x63] [0x64, 0x65, 0x63] 0 = Inr (3, 0x17)"
    by simp_all
  from t3 have c: "secure_memcmp (Some [0x73, 0x65, 0x63]) (Some [0x73, 0x65, 0x66]) 3 = Inr False"
    "memcmp_loop 0 3 [0x73, 0x65, 0x63] [0x73, 0x65, 0x66] 0 = Inr (3, 0x05)"
    by simp_all
  from t4 have d: "secure_memcmp (Some [0x73, 0x65, 0x63]) (Some [0x73, 0x65, 0x66]) 2 = Inr True"
    by simp
  from t5 have e: "secure_memcmp (Some []) (Some []) 0 = Inr True" by simp
  from a b c d e show ?thesis by blast
qed

end
